theory Spec2Isabelle
  imports Complex_Main "HOL-Library.Signed_Division" "HOL-Library.AList"
begin

section \<open>Conventions of the embedding\<close>

text \<open>
  The Go sources of tissa are embedded function by function.

  \<^item> \<open>int64\<close> and \<open>int\<close> are modelled as \<open>int\<close>; Go's \<open>/\<close> and \<open>%\<close> truncate towards zero
    (\<open>sdiv\<close>, \<open>smod\<close>) and panic on a zero divisor. Overflow of 64-bit arithmetic is outside
    the model.
  \<^item> \<open>float64\<close> is idealised as \<open>real\<close>.
  \<^item> A Go map that is iterated is an association list; the list order stands for the
    iteration order Go happens to choose. A map that is only read and written by key
    (\<open>tagMap\<close>) is a HOL map.
  \<^item> A Go map can be \<open>nil\<close>: reading a \<open>nil\<close> map finds nothing, writing to it panics.
    A slot of a chunk is \<open>None\<close> for the \<open>nil\<close> map and \<open>Some tick\<close> otherwise, and
    \<open>tagMap\<close> is \<open>None\<close> when it is \<open>nil\<close>. Only \<open>newChunk\<close> allocates \<open>tagMap\<close>; the
    field is unexported, so a chunk decoded from its file has \<open>tagMap = nil\<close> and
    \<open>dirty = false\<close>.
  \<^item> \<open>fillTo\<close> appends the same map object to several slots. The only write to a
    stored map is the merge into the tail slot of the tail chunk, and that slot is always
    a map made by \<open>derefTags\<close> for that slot alone (a chunk that ends with fill slots is
    either extended by a fresh slot in the same call or retired by \<open>Archive.Append\<close>), so
    the sharing cannot be observed and slots are modelled as values.
  \<^item> Every run-time panic is a value \<open>Inl fault\<close>; a loop that would never leave is
    \<open>Inl NoReturn\<close>.
  \<^item> The payload type \<open>interface{}\<close> is a type parameter \<open>'p\<close>: the base archive stores
    \<open>real\<close>, the coarser archives store \<open>Rollup\<close>.
\<close>

datatype fault =
    DivideByZero
  | IndexOutOfRange
  | NegativeLength
  | NilMapWrite
  | NilDereference
  | NoReturn

definition rbind :: "fault + 'a \<Rightarrow> ('a \<Rightarrow> fault + 'b) \<Rightarrow> fault + 'b" where
  "rbind m f = (case m of Inl e \<Rightarrow> Inl e | Inr x \<Rightarrow> f x)"

definition idiv :: "int \<Rightarrow> int \<Rightarrow> fault + int" where
  "idiv a b = (if b = 0 then Inl DivideByZero else Inr (a sdiv b))"

definition imod :: "int \<Rightarrow> int \<Rightarrow> fault + int" where
  "imod a b = (if b = 0 then Inl DivideByZero else Inr (a smod b))"


section \<open>Chunks\<close>

type_synonym 'p tick = "(nat \<times> 'p) list"

record 'p chunk =
  cStartTime :: int
  cEndTime :: int
  cResolution :: int
  cData :: "'p tick option list"
  cTags :: "string list"
  ctagMap :: "(string \<rightharpoonup> nat) option"
  cdirty :: bool

definition newChunk :: "int \<Rightarrow> int \<Rightarrow> 'p chunk" where
  "newChunk resolution startTime =
     \<lparr> cStartTime = startTime, cEndTime = 0, cResolution = resolution,
       cData = [], cTags = [], ctagMap = Some Map.empty, cdirty = True \<rparr>"

definition empty_chunk :: "'p chunk \<Rightarrow> bool" where
  "empty_chunk c = (cEndTime c = 0)"

definition latestRaw :: "'p chunk \<Rightarrow> 'p tick option" where
  "latestRaw c = (if cData c = [] then None else last (cData c))"

text \<open>
  \<open>derefTags\<close>: the loop over the input map, interning unknown tags. The lookup
  \<open>c.tagMap[tag]\<close> reads, so it finds nothing in a \<open>nil\<close> map; the assignment
  \<open>c.tagMap[tag] = len(c.Tags)\<close> panics on a \<open>nil\<close> map.
\<close>

fun derefTags_loop ::
  "(string \<times> 'p) list \<Rightarrow> 'p chunk \<Rightarrow> 'p tick \<Rightarrow> fault + ('p tick \<times> 'p chunk)" where
  "derefTags_loop [] c ret = Inr (ret, c)"
| "derefTags_loop ((tag, v) # rest) c ret =
     (case (case ctagMap c of None \<Rightarrow> None | Some m \<Rightarrow> m tag) of
        Some i \<Rightarrow> derefTags_loop rest c (AList.update i v ret)
      | None \<Rightarrow>
          (case ctagMap c of
             None \<Rightarrow> Inl NilMapWrite
           | Some m \<Rightarrow>
               (let i = length (cTags c);
                    c' = c\<lparr> ctagMap := Some (m(tag \<mapsto> i)), cTags := cTags c @ [tag] \<rparr>
                in derefTags_loop rest c' (AList.update i v ret))))"

definition derefTags :: "'p chunk \<Rightarrow> (string \<times> 'p) list \<Rightarrow> fault + ('p tick \<times> 'p chunk)" where
  "derefTags c val = derefTags_loop val c []"

text \<open>
  The loop \<open>ret[c.Tags[i]] = v\<close> shared by \<open>latest\<close> and \<open>resolveTags\<close>;
  \<open>c.Tags[i]\<close> panics out of range.
\<close>

fun resolveTags :: "string list \<Rightarrow> (nat \<times> 'v) list \<Rightarrow> (string \<times> 'v) list \<Rightarrow> fault + (string \<times> 'v) list" where
  "resolveTags tags [] ret = Inr ret"
| "resolveTags tags ((i, v) # rest) ret =
     (if i < length tags then resolveTags tags rest (AList.update (tags ! i) v ret)
      else Inl IndexOutOfRange)"

definition latest :: "'p chunk \<Rightarrow> fault + (string \<times> 'p) list option" where
  "latest c =
     (case latestRaw c of
        None \<Rightarrow> Inr None
      | Some tick \<Rightarrow> rbind (resolveTags (cTags c) tick []) (\<lambda>ret. Inr (Some ret)))"

text \<open>\<open>fillTo\<close>: the \<open>for ts < timestamp\<close> loop, then the function itself.\<close>

function fillTo_loop :: "int \<Rightarrow> 'p tick option \<Rightarrow> int \<Rightarrow> 'p chunk \<Rightarrow> fault + 'p chunk" where
  "fillTo_loop timestamp fillVal ts c =
     (if ts < timestamp then
        (if cResolution c \<le> 0 then Inl NoReturn
         else fillTo_loop timestamp fillVal (ts + cResolution c)
                (c\<lparr> cData := cData c @ [fillVal], cEndTime := ts, cdirty := True \<rparr>))
      else Inr c)"
  by pat_completeness auto
termination
  by (relation "measure (\<lambda>(timestamp, fillVal, ts, c). nat (timestamp - ts))") auto

declare fillTo_loop.simps [simp del]

definition fillTo :: "'p chunk \<Rightarrow> int \<Rightarrow> fault + 'p chunk" where
  "fillTo c timestamp =
     rbind (idiv (timestamp - cEndTime c) (cResolution c)) (\<lambda>numToFill.
       let ts = cEndTime c + cResolution c;
           fillVal = (if numToFill < 3 then latestRaw c else None)
       in fillTo_loop timestamp fillVal ts c)"

text \<open>\<open>append\<close>: the leading-null loop of an empty chunk, the merge loop, the function.\<close>

function lead_loop :: "int \<Rightarrow> int \<Rightarrow> 'p chunk \<Rightarrow> fault + 'p chunk" where
  "lead_loop timestamp ts c =
     (if ts < timestamp then
        (if cResolution c \<le> 0 then Inl NoReturn
         else lead_loop timestamp (ts + cResolution c) (c\<lparr> cData := cData c @ [None] \<rparr>))
      else Inr c)"
  by pat_completeness auto
termination
  by (relation "measure (\<lambda>(timestamp, ts, c). nat (timestamp - ts))") auto

declare lead_loop.simps [simp del]

definition merge_tick :: "'p tick \<Rightarrow> 'p tick \<Rightarrow> 'p tick" where
  "merge_tick new latest_tick = fold (\<lambda>(k, v) m. AList.update k v m) new latest_tick"

definition append_chunk :: "'p chunk \<Rightarrow> (string \<times> 'p) list \<Rightarrow> int \<Rightarrow> fault + 'p chunk" where
  "append_chunk c val timestamp =
     (if timestamp < cEndTime c then Inr c
      else if timestamp = cEndTime c then
        (if cData c = [] then Inl IndexOutOfRange
         else
           rbind (derefTags c val) (\<lambda>(new, c1).
             case last (cData c) of
               None \<Rightarrow> (if new = [] then Inr c1 else Inl NilMapWrite)
             | Some latest_tick \<Rightarrow>
                 Inr (c1\<lparr> cData := butlast (cData c) @ [Some (merge_tick new latest_tick)] \<rparr>)))
      else
        rbind (if \<not> empty_chunk c \<and> timestamp > cEndTime c + cResolution c
               then fillTo c timestamp else Inr c) (\<lambda>c1.
        rbind (if empty_chunk c1 \<and> timestamp \<noteq> cStartTime c1
               then lead_loop timestamp (cStartTime c1) c1 else Inr c1) (\<lambda>c2.
        rbind (derefTags c2 val) (\<lambda>(new, c3).
          Inr (c3\<lparr> cData := cData c3 @ [Some new], cEndTime := timestamp, cdirty := True \<rparr>)))))"

text \<open>\<open>getData\<close>, with \<open>tsIndex\<close>.\<close>

definition tsIndex :: "'p chunk \<Rightarrow> int \<Rightarrow> fault + int" where
  "tsIndex c ts = idiv (ts - cStartTime c) (cResolution c)"

fun put_tick :: "nat \<Rightarrow> nat \<Rightarrow> 'p tick \<Rightarrow> (nat \<times> 'p option list) list \<Rightarrow> (nat \<times> 'p option list) list" where
  "put_tick l i [] data = data"
| "put_tick l i ((tag, v) # tick) data =
     (let ser = (case map_of data tag of None \<Rightarrow> replicate l None | Some s \<Rightarrow> s)
      in put_tick l i tick (AList.update tag (ser[i := Some v]) data))"

function getData_loop ::
  "'p chunk \<Rightarrow> int \<Rightarrow> nat \<Rightarrow> int \<Rightarrow> nat \<Rightarrow> (nat \<times> 'p option list) list \<Rightarrow> int list
     \<Rightarrow> fault + ((nat \<times> 'p option list) list \<times> int list)" where
  "getData_loop c endTime l ct i data stamps =
     (if ct < endTime then
        (if l \<le> i then Inl IndexOutOfRange
         else
           rbind (tsIndex c ct) (\<lambda>idx.
             let data' =
                   (if 0 \<le> idx \<and> idx < int (length (cData c)) then
                      (case cData c ! nat idx of None \<Rightarrow> data | Some tick \<Rightarrow> put_tick l i tick data)
                    else data)
             in getData_loop c endTime l (ct + cResolution c) (Suc i) data' (stamps[i := ct])))
      else Inr (data, stamps))"
  by pat_completeness auto
termination
  by (relation "measure (\<lambda>(c, endTime, l, ct, i, data, stamps). l - i)") auto

declare getData_loop.simps [simp del]

definition getData ::
  "'p chunk \<Rightarrow> int \<Rightarrow> int \<Rightarrow> fault + ((string \<times> 'p option list) list \<times> int list)" where
  "getData c startTime endTime =
     rbind (idiv (endTime - startTime) (cResolution c)) (\<lambda>l.
       if l < 0 then Inl NegativeLength
       else
         rbind (getData_loop c endTime (nat l) startTime 0 [] (replicate (nat l) 0)) (\<lambda>(data, stamps).
           rbind (resolveTags (cTags c) data []) (\<lambda>ret. Inr (ret, stamps))))"


section \<open>Archives\<close>

text \<open>
  The directory \<open>a.Dir\<close> is part of the archive state: \<open>files\<close> holds the chunk files
  by name (the chunk's start time), \<open>header\<close> the contents of the file \<open>archive\<close>
  (the exported fields \<open>Interval\<close>, \<open>ChunkSize\<close>, \<open>Retention\<close>, \<open>StartTime\<close>,
  \<open>EndTime\<close>). A chunk file stores the exported fields of the chunk, so a chunk read
  back has \<open>tagMap = nil\<close> and \<open>dirty = false\<close>. An element of \<open>chunks\<close> is a
  pointer: \<open>None\<close> is \<open>nil\<close>. The mutex is not modelled (calls are sequential).
\<close>

record 'p archive =
  Interval :: int
  ChunkSize :: int
  Retention :: int
  StartTime :: int
  EndTime :: int
  chunks :: "'p chunk option list"
  lastWrite :: int
  files :: "(int \<times> 'p chunk) list"
  header :: "(int \<times> int \<times> int \<times> int \<times> int) option"

definition NewArchive :: "int \<Rightarrow> int \<Rightarrow> int \<Rightarrow> 'p archive" where
  "NewArchive interval retention chunkSize =
     \<lparr> Interval = interval, ChunkSize = chunkSize, Retention = retention,
       StartTime = 0, EndTime = 0, chunks = [], lastWrite = 0, files = [], header = None \<rparr>"

definition lastChunk :: "'p archive \<Rightarrow> 'p chunk option" where
  "lastChunk a = (if chunks a = [] then None else last (chunks a))"

definition chunkStart :: "'p archive \<Rightarrow> int \<Rightarrow> fault + int" where
  "chunkStart a ts = rbind (imod ts (ChunkSize a)) (\<lambda>m. Inr (ts - m))"

definition chunkEnd :: "'p archive \<Rightarrow> int \<Rightarrow> fault + int" where
  "chunkEnd a ts = rbind (chunkStart a ts) (\<lambda>s. Inr (s + ChunkSize a - Interval a))"

definition boundaryCheck :: "'p archive \<Rightarrow> int \<Rightarrow> fault + bool" where
  "boundaryCheck a ts =
     (case lastChunk a of
        None \<Rightarrow> Inl NilDereference
      | Some c \<Rightarrow> rbind (chunkEnd a (cStartTime c)) (\<lambda>ce. Inr (ts > ce)))"

definition tsNorm :: "'p archive \<Rightarrow> int \<Rightarrow> fault + int" where
  "tsNorm a timestamp =
     rbind (imod timestamp (Interval a)) (\<lambda>m.
       let ts = timestamp - m
       in Inr (if ts < timestamp then ts + Interval a else ts))"

definition Append :: "'p archive \<Rightarrow> (string \<times> 'p) list \<Rightarrow> int \<Rightarrow> fault + 'p archive" where
  "Append a val timestamp0 =
     rbind (tsNorm a timestamp0) (\<lambda>timestamp.
     rbind
       (case lastChunk a of
          None \<Rightarrow>
            rbind (imod timestamp (ChunkSize a)) (\<lambda>m.
              Inr ([], newChunk (Interval a) (timestamp - m)))
        | Some lc \<Rightarrow>
            rbind (boundaryCheck a timestamp) (\<lambda>b.
              if b then
                rbind (chunkStart a timestamp) (\<lambda>nextStart.
                rbind (chunkEnd a (cStartTime lc)) (\<lambda>ce.
                rbind (if cEndTime lc < ce then fillTo lc nextStart else Inr lc) (\<lambda>lc'.
                  Inr (butlast (chunks a) @ [Some lc'], newChunk (Interval a) nextStart))))
              else Inr (butlast (chunks a), lc)))
       (\<lambda>(older, lc).
          rbind (append_chunk lc val timestamp) (\<lambda>lc'.
            Inr (a\<lparr> chunks := older @ [Some lc'],
                    EndTime := timestamp,
                    StartTime := (if StartTime a = 0 then timestamp else StartTime a) \<rparr>))))"

definition Latest :: "'p archive \<Rightarrow> fault + ((string \<times> 'p) list option \<times> int)" where
  "Latest a =
     (case lastChunk a of
        None \<Rightarrow> Inr (None, 0)
      | Some lc \<Rightarrow> rbind (latest lc) (\<lambda>m. Inr (m, cEndTime lc)))"

fun findChunk :: "'p chunk option list \<Rightarrow> int \<Rightarrow> fault + 'p chunk option" where
  "findChunk [] ts = Inr None"
| "findChunk (None # cs) ts = Inl NilDereference"
| "findChunk (Some c # cs) ts = (if cStartTime c = ts then Inr (Some c) else findChunk cs ts)"

text \<open>The result \<open>None\<close> is the error return of \<open>getChunkByStartTime\<close> (no such file).\<close>

definition getChunkByStartTime :: "'p archive \<Rightarrow> int \<Rightarrow> fault + 'p chunk option" where
  "getChunkByStartTime a ts =
     rbind (findChunk (chunks a) ts) (\<lambda>r.
       case r of Some c \<Rightarrow> Inr (Some c) | None \<Rightarrow> Inr (map_of (files a) ts))"

fun mk_stamps :: "nat \<Rightarrow> int \<Rightarrow> int \<Rightarrow> int list" where
  "mk_stamps 0 t iv = []"
| "mk_stamps (Suc n) t iv = t # mk_stamps n (t + iv) iv"

fun splice_ticks :: "int \<Rightarrow> 'v list \<Rightarrow> 'v list \<Rightarrow> fault + 'v list" where
  "splice_ticks i [] exst = Inr exst"
| "splice_ticks i (t # ticks) exst =
     (if 0 \<le> i \<and> i < int (length exst) then splice_ticks (i + 1) ticks (exst[nat i := t])
      else Inl IndexOutOfRange)"

fun splice ::
  "nat \<Rightarrow> int \<Rightarrow> (string \<times> 'p option list) list \<Rightarrow> (string \<times> 'p option list) list
     \<Rightarrow> fault + (string \<times> 'p option list) list" where
  "splice l i [] data = Inr data"
| "splice l i ((key, ticks) # rest) data =
     (let exst = (case map_of data key of None \<Rightarrow> replicate l None | Some e \<Rightarrow> e)
      in rbind (splice_ticks i ticks exst) (\<lambda>exst'.
           splice l i rest (AList.update key exst' data)))"

text \<open>
  The loop \<open>for chunkStart < endTime\<close> of \<open>GetData\<close>. With a negative \<open>ChunkSize\<close> the
  loop variable only decreases, so the loop is never left normally (it panics in some
  iteration or runs forever); the model reports that as \<open>NoReturn\<close>.
\<close>

function GetData_loop ::
  "'p archive \<Rightarrow> int \<Rightarrow> int \<Rightarrow> nat \<Rightarrow> int \<Rightarrow> int \<Rightarrow> (string \<times> 'p option list) list
     \<Rightarrow> fault + (string \<times> 'p option list) list" where
  "GetData_loop a startTime endTime l cs i data =
     (if cs < endTime then
        (if ChunkSize a \<le> 0 then Inl NoReturn
         else
           (let cStart = (if cs < startTime then startTime else cs);
                cEnd = (if cs + ChunkSize a > endTime then endTime else cs + ChunkSize a)
            in rbind (getChunkByStartTime a cs) (\<lambda>r.
               rbind (case r of
                        None \<Rightarrow> Inr data
                      | Some c \<Rightarrow>
                          rbind (getData c cStart cEnd) (\<lambda>(chunkData, stamps).
                            splice l i chunkData data)) (\<lambda>data'.
               rbind (idiv (cEnd - cStart) (Interval a)) (\<lambda>d.
                 GetData_loop a startTime endTime l (cs + ChunkSize a) (i + d) data')))))
      else Inr data)"
  by pat_completeness auto
termination
  by (relation "measure (\<lambda>(a, startTime, endTime, l, cs, i, data). nat (endTime - cs))") auto

declare GetData_loop.simps [simp del]

definition GetData ::
  "'p archive \<Rightarrow> int \<Rightarrow> int \<Rightarrow> fault + ((string \<times> 'p option list) list \<times> int list)" where
  "GetData a startTime0 endTime0 =
     rbind (tsNorm a startTime0) (\<lambda>startTime.
     rbind (tsNorm a endTime0) (\<lambda>endTime.
     rbind (idiv (endTime - startTime) (Interval a)) (\<lambda>l.
     rbind (chunkStart a startTime) (\<lambda>cs.
       if l < 0 then Inl NegativeLength
       else
         (let stamps = mk_stamps (nat l) startTime (Interval a)
          in rbind (GetData_loop a startTime endTime (nat l) cs 0 []) (\<lambda>data.
               Inr (data, stamps)))))))"

text \<open>
  \<open>exerciseRetention\<close>. \<open>os.Remove\<close> deletes the chunk file if it is there.
\<close>

function exerciseRetention :: "'p archive \<Rightarrow> fault + 'p archive" where
  "exerciseRetention a =
     (if EndTime a - StartTime a > Retention a then
        (if ChunkSize a = 0 then Inl DivideByZero
         else if ChunkSize a < 0 then Inl NoReturn
         else
           (let cs = StartTime a - StartTime a smod ChunkSize a
            in exerciseRetention (a\<lparr> files := AList.delete cs (files a),
                                       StartTime := cs + ChunkSize a \<rparr>)))
      else Inr a)"
  by pat_completeness auto
termination
proof (relation "measure (\<lambda>a. nat (EndTime a - StartTime a - Retention a))")
  show "wf (measure (\<lambda>a::'p archive. nat (EndTime a - StartTime a - Retention a)))"
    by simp
next
  fix a :: "'p archive" and cs :: int
  assume gt: "Retention a < EndTime a - StartTime a"
    and nz: "ChunkSize a \<noteq> 0" and nn: "\<not> ChunkSize a < 0"
    and cs: "cs = StartTime a - StartTime a smod ChunkSize a"
  have pos: "0 < ChunkSize a" using nz nn by simp
  have "StartTime a smod ChunkSize a < ChunkSize a"
  proof (cases "StartTime a < 0")
    case True
    have m: "0 \<le> (- StartTime a) mod ChunkSize a" using pos by simp
    have e: "StartTime a smod ChunkSize a = - ((- StartTime a) mod ChunkSize a)"
      using True pos by (simp add: signed_modulo_int_def)
    show ?thesis unfolding e using m pos by linarith
  next
    case False
    have m: "StartTime a mod ChunkSize a < ChunkSize a" using pos by simp
    have e: "StartTime a smod ChunkSize a = StartTime a mod ChunkSize a"
      using False pos by (cases "StartTime a = 0") (simp_all add: signed_modulo_int_def)
    show ?thesis unfolding e using m by linarith
  qed
  then show "(a\<lparr> files := AList.delete cs (files a), StartTime := cs + ChunkSize a \<rparr>, a)
      \<in> measure (\<lambda>a. nat (EndTime a - StartTime a - Retention a))"
    using gt cs by simp
qed

declare exerciseRetention.simps [simp del]

text \<open>
  \<open>Write\<close>. The environment decides whether creating a chunk file succeeds: \<open>wok name\<close>.
  The result \<open>(False, a)\<close> is the error return. The header write's own error is
  discarded by the source, and the model takes it to succeed.
\<close>

fun write_chunks ::
  "(int \<Rightarrow> bool) \<Rightarrow> 'p archive \<Rightarrow> 'p chunk option list \<Rightarrow> (int \<times> 'p chunk) list
     \<Rightarrow> fault + (bool \<times> (int \<times> 'p chunk) list)" where
  "write_chunks wok a [] fs = Inr (True, fs)"
| "write_chunks wok a (None # cs) fs = Inl NilDereference"
| "write_chunks wok a (Some c # cs) fs =
     (if cdirty c then
        rbind (chunkStart a (cStartTime c)) (\<lambda>name.
          if wok name
          then write_chunks wok a cs
                 (AList.update name (c\<lparr> ctagMap := None, cdirty := False \<rparr>) fs)
          else Inr (False, fs))
      else write_chunks wok a cs fs)"

definition write_header :: "'p archive \<Rightarrow> 'p archive" where
  "write_header a =
     a\<lparr> header := Some (Interval a, ChunkSize a, Retention a, StartTime a, EndTime a) \<rparr>"

definition Write :: "(int \<Rightarrow> bool) \<Rightarrow> 'p archive \<Rightarrow> fault + (bool \<times> 'p archive)" where
  "Write wok a =
     (if EndTime a > lastWrite a then
        rbind (write_chunks wok a (chunks a) (files a)) (\<lambda>(ok, fs).
          if \<not> ok then Inr (False, a\<lparr> files := fs \<rparr>)
          else
            rbind (exerciseRetention (a\<lparr> files := fs, chunks := [lastChunk a] \<rparr>)) (\<lambda>a'.
              Inr (True, write_header (a'\<lparr> lastWrite := EndTime a' \<rparr>))))
      else Inr (True, write_header (a\<lparr> lastWrite := EndTime a \<rparr>)))"


section \<open>Series\<close>

record Rollup =
  rTotal :: real
  rCount :: int
  rMin :: real
  rMax :: real

definition zeroRollup :: Rollup where
  "zeroRollup = \<lparr> rTotal = 0, rCount = 0, rMin = 0, rMax = 0 \<rparr>"

record ArchiveConfig =
  cfgResolution :: int
  cfgRetention :: int

record TimeSeriesConfig =
  Archives :: "ArchiveConfig list"
  DefaultValue :: real

text \<open>
  \<open>archives[0]\<close> is \<open>base\<close>, \<open>archives[1..]\<close> is \<open>coarser\<close>: the two hold different
  payloads.
\<close>

record TimeSeries =
  base :: "real archive"
  coarser :: "Rollup archive list"
  config :: TimeSeriesConfig
  LastWritten :: int

datatype err = NoArchives | NotDivisible | MkdirFailed | BaseRollups | NoMatchingArchive

definition chunkSizeSlots :: int where
  "chunkSizeSlots = 2000"

text \<open>
  \<open>NewTimeSeries\<close>. The series directory is taken to be new, so \<open>os.Mkdir\<close> of an
  archive directory fails exactly when this call has already made a directory of that
  name (\<open>dirs\<close>); writing the \<open>config\<close> file is taken to succeed. \<open>new_archive\<close> is
  the body of the loop.
\<close>

definition new_archive :: "int \<Rightarrow> int list \<Rightarrow> ArchiveConfig \<Rightarrow> fault + (err + 'p archive)" where
  "new_archive last_res dirs a =
     rbind (imod (cfgResolution a) last_res) (\<lambda>m.
       if m \<noteq> 0 then Inr (Inl NotDivisible)
       else if cfgResolution a \<in> set dirs then Inr (Inl MkdirFailed)
       else
         rbind (Write (\<lambda>name. True)
                  (NewArchive (cfgResolution a) (cfgRetention a) (chunkSizeSlots * cfgResolution a)))
           (\<lambda>(ok, ar). Inr (Inr ar)))"

fun new_archives :: "int \<Rightarrow> int list \<Rightarrow> ArchiveConfig list \<Rightarrow> fault + (err + 'p archive list)" where
  "new_archives last_res dirs [] = Inr (Inr [])"
| "new_archives last_res dirs (a # as) =
     rbind (new_archive last_res dirs a) (\<lambda>r.
       case r of
         Inl e \<Rightarrow> Inr (Inl e)
       | Inr ar \<Rightarrow>
           rbind (new_archives (cfgResolution a) (cfgResolution a # dirs) as) (\<lambda>r'.
             case r' of
               Inl e \<Rightarrow> Inr (Inl e)
             | Inr ars \<Rightarrow> Inr (Inr (ar # ars))))"

definition NewTimeSeries :: "TimeSeriesConfig \<Rightarrow> fault + (err + TimeSeries)" where
  "NewTimeSeries cfg =
     (if Archives cfg = [] then Inr (Inl NoArchives)
      else
        (let sorted = sort_key cfgResolution (Archives cfg);
             cfg' = cfg\<lparr> Archives := sorted \<rparr>
         in rbind (new_archive 1 [] (hd sorted)) (\<lambda>r.
              case r of
                Inl e \<Rightarrow> Inr (Inl e)
              | Inr b \<Rightarrow>
                  rbind (new_archives (cfgResolution (hd sorted)) [cfgResolution (hd sorted)]
                           (tl sorted)) (\<lambda>r'.
                    case r' of
                      Inl e \<Rightarrow> Inr (Inl e)
                    | Inr cs \<Rightarrow>
                        Inr (Inr \<lparr> base = b, coarser = cs, config = cfg', LastWritten = 0 \<rparr>)))))"

text \<open>The reductions \<open>rollupRawData\<close> and \<open>rollupRollupData\<close>, inner loop first.\<close>

fun rollupRaw_loop :: "real option list \<Rightarrow> Rollup \<Rightarrow> bool \<Rightarrow> Rollup" where
  "rollupRaw_loop [] r first = r"
| "rollupRaw_loop (None # v) r first = rollupRaw_loop v r first"
| "rollupRaw_loop (Some x # v) r first =
     rollupRaw_loop v
       (r\<lparr> rCount := rCount r + 1,
            rTotal := rTotal r + x,
            rMax := (if first \<or> x > rMax r then x else rMax r),
            rMin := (if first \<or> x < rMin r then x else rMin r) \<rparr>)
       False"

definition rollupRawData :: "(string \<times> real option list) list \<Rightarrow> (string \<times> Rollup) list" where
  "rollupRawData data =
     fold (\<lambda>(k, v) res. AList.update k (rollupRaw_loop v zeroRollup True) res) data []"

fun rollupRollup_loop :: "Rollup option list \<Rightarrow> Rollup \<Rightarrow> bool \<Rightarrow> Rollup" where
  "rollupRollup_loop [] r first = r"
| "rollupRollup_loop (None # v) r first = rollupRollup_loop v r first"
| "rollupRollup_loop (Some rVal # v) r first =
     rollupRollup_loop v
       (r\<lparr> rCount := rCount r + rCount rVal,
            rTotal := rTotal r + rTotal rVal,
            rMax := (if first \<or> rMax rVal > rMax r then rMax rVal else rMax r),
            rMin := (if first \<or> rMin rVal < rMin r then rMin rVal else rMin r) \<rparr>)
       False"

definition rollupRollupData :: "(string \<times> Rollup option list) list \<Rightarrow> (string \<times> Rollup) list" where
  "rollupRollupData data =
     fold (\<lambda>(k, v) res. AList.update k (rollupRollup_loop v zeroRollup True) res) data []"

text \<open>
  \<open>AddValues\<close>. \<open>rollup_step\<close> is the body of the loop for one coarser archive, given
  the window read from the archive below and already reduced by \<open>reduce\<close>; its result
  \<open>None\<close> is the \<open>break\<close>.
\<close>

definition rollup_step ::
  "int \<Rightarrow> int \<Rightarrow> 'p archive \<Rightarrow> ((string \<times> 'p option list) list \<Rightarrow> (string \<times> Rollup) list)
     \<Rightarrow> Rollup archive \<Rightarrow> fault + Rollup archive option" where
  "rollup_step timestamp lastTimestamp curArchive reduce rollupArchive =
     (let rollupIval = Interval rollupArchive in
      rbind (idiv timestamp rollupIval) (\<lambda>q.
      rbind (idiv lastTimestamp rollupIval) (\<lambda>q'.
        if q = q' then Inr None
        else
          rbind (imod timestamp rollupIval) (\<lambda>m.
            let rollupStart = timestamp - m - rollupIval;
                rollupEnd = rollupStart + rollupIval
            in rbind (GetData curArchive rollupStart rollupEnd) (\<lambda>(data, stamps).
               rbind (Append rollupArchive (reduce data) rollupEnd) (\<lambda>ra.
                 Inr (Some ra)))))))"

fun cascade_loop :: "int \<Rightarrow> int \<Rightarrow> Rollup archive \<Rightarrow> Rollup archive list \<Rightarrow> fault + Rollup archive list" where
  "cascade_loop timestamp lastTimestamp cur [] = Inr []"
| "cascade_loop timestamp lastTimestamp cur (ra # rest) =
     rbind (rollup_step timestamp lastTimestamp cur rollupRollupData ra) (\<lambda>r.
       case r of
         None \<Rightarrow> Inr (ra # rest)
       | Some ra' \<Rightarrow>
           rbind (cascade_loop timestamp lastTimestamp ra' rest) (\<lambda>rest'. Inr (ra' # rest')))"

definition cascade :: "int \<Rightarrow> int \<Rightarrow> real archive \<Rightarrow> Rollup archive list \<Rightarrow> fault + Rollup archive list" where
  "cascade timestamp lastTimestamp b cs =
     (case cs of
        [] \<Rightarrow> Inr []
      | ra # rest \<Rightarrow>
          rbind (rollup_step timestamp lastTimestamp b rollupRawData ra) (\<lambda>r.
            case r of
              None \<Rightarrow> Inr (ra # rest)
            | Some ra' \<Rightarrow>
                rbind (cascade_loop timestamp lastTimestamp ra' rest) (\<lambda>rest'. Inr (ra' # rest'))))"

definition AddValues :: "TimeSeries \<Rightarrow> (string \<times> real) list \<Rightarrow> int \<Rightarrow> fault + TimeSeries" where
  "AddValues t vals timestamp =
     (let lastTimestamp = EndTime (base t) in
      rbind (Append (base t) vals timestamp) (\<lambda>b.
      rbind (cascade timestamp lastTimestamp b (coarser t)) (\<lambda>cs.
        Inr (t\<lparr> base := b, coarser := cs \<rparr>))))"

definition AddValue :: "TimeSeries \<Rightarrow> string \<Rightarrow> real \<Rightarrow> int \<Rightarrow> fault + TimeSeries" where
  "AddValue t key val timestamp = AddValues t [(key, val)] timestamp"

definition Latest_series :: "TimeSeries \<Rightarrow> fault + ((string \<times> real) list \<times> int)" where
  "Latest_series t =
     rbind (Latest (base t)) (\<lambda>(d, ts).
       Inr ((case d of None \<Rightarrow> [] | Some m \<Rightarrow> m), ts))"

text \<open>Queries. \<open>Inr (Inl e)\<close> is the error return.\<close>

definition avg_handler :: "Rollup \<Rightarrow> real" where
  "avg_handler r = (if rCount r > 0 then rTotal r / real_of_int (rCount r) else 0)"

definition max_handler :: "Rollup \<Rightarrow> real" where
  "max_handler r = (if rCount r > 0 then rMax r else 0)"

definition min_handler :: "Rollup \<Rightarrow> real" where
  "min_handler r = (if rCount r > 0 then rMin r else 0)"

definition Rollups ::
  "TimeSeries \<Rightarrow> int \<Rightarrow> int \<Rightarrow> int \<Rightarrow> fault + (err + ((string \<times> Rollup list) list \<times> int list))" where
  "Rollups t startTime endTime resolution =
     (if resolution = Interval (base t) then Inr (Inl BaseRollups)
      else
        (case fold (\<lambda>a r. if Interval a = resolution then Some a else r) (coarser t) None of
           None \<Rightarrow> Inr (Inl NoMatchingArchive)
         | Some archive \<Rightarrow>
             rbind (GetData archive startTime endTime) (\<lambda>(data, ts).
               Inr (Inr (map (\<lambda>(k, v). (k, map (\<lambda>d. case d of Some r \<Rightarrow> r | None \<Rightarrow> zeroRollup) v)) data,
                         ts)))))"

text \<open>
  \<open>fill_vals\<close> is \<open>vals[k] = make([]float64, l)\<close> followed by the loop that assigns
  \<open>vals[k][i]\<close> for every index of \<open>v\<close>.
\<close>

definition fill_vals :: "int \<Rightarrow> ('d \<Rightarrow> real) \<Rightarrow> 'd list \<Rightarrow> fault + real list" where
  "fill_vals l f v =
     (if l < 0 then Inl NegativeLength
      else if int (length v) > l then Inl IndexOutOfRange
      else Inr (map f v @ replicate (nat l - length v) 0))"

fun fill_all ::
  "int \<Rightarrow> ('d \<Rightarrow> real) \<Rightarrow> (string \<times> 'd list) list \<Rightarrow> (string \<times> real list) list
     \<Rightarrow> fault + (string \<times> real list) list" where
  "fill_all l f [] vals = Inr vals"
| "fill_all l f ((k, v) # rest) vals =
     rbind (fill_vals l f v) (\<lambda>xs. fill_all l f rest (AList.update k xs vals))"

definition walkData ::
  "TimeSeries \<Rightarrow> int \<Rightarrow> int \<Rightarrow> int \<Rightarrow> (Rollup \<Rightarrow> real)
     \<Rightarrow> fault + (err + ((string \<times> real list) list \<times> int list))" where
  "walkData t startTime endTime resolution rollupHandler =
     rbind (idiv (endTime - startTime) resolution) (\<lambda>l0.
     rbind (imod (endTime - startTime) resolution) (\<lambda>m.
       let l = (if m > 0 then l0 + 1 else l0) in
       if resolution = Interval (base t) then
         rbind (GetData (base t) startTime endTime) (\<lambda>(idata, ts).
         rbind (fill_all l (\<lambda>d. case d of Some x \<Rightarrow> x | None \<Rightarrow> DefaultValue (config t)) idata [])
           (\<lambda>vals. Inr (Inr (vals, ts))))
       else
         rbind (Rollups t startTime endTime resolution) (\<lambda>r.
           case r of
             Inl e \<Rightarrow> Inr (Inl e)
           | Inr (rdata, ts) \<Rightarrow>
               rbind (fill_all l rollupHandler rdata []) (\<lambda>vals. Inr (Inr (vals, ts))))))"

definition Averages ::
  "TimeSeries \<Rightarrow> int \<Rightarrow> int \<Rightarrow> int \<Rightarrow> fault + (err + ((string \<times> real list) list \<times> int list))" where
  "Averages t startTime endTime resolution = walkData t startTime endTime resolution avg_handler"

definition Maximums ::
  "TimeSeries \<Rightarrow> int \<Rightarrow> int \<Rightarrow> int \<Rightarrow> fault + (err + ((string \<times> real list) list \<times> int list))" where
  "Maximums t startTime endTime resolution = walkData t startTime endTime resolution max_handler"

definition Minimums ::
  "TimeSeries \<Rightarrow> int \<Rightarrow> int \<Rightarrow> int \<Rightarrow> fault + (err + ((string \<times> real list) list \<times> int list))" where
  "Minimums t startTime endTime resolution = walkData t startTime endTime resolution min_handler"

text \<open>
  \<open>Write\<close> of the series: every archive in order, the first error returned; \<open>now\<close> is
  the wall clock, \<open>wok iv name\<close> the environment's answer for the chunk file \<open>name\<close> in
  the directory of the archive of resolution \<open>iv\<close>.
\<close>

fun write_all ::
  "(int \<Rightarrow> int \<Rightarrow> bool) \<Rightarrow> 'p archive list \<Rightarrow> fault + (bool \<times> 'p archive list)" where
  "write_all wok [] = Inr (True, [])"
| "write_all wok (a # as) =
     rbind (Write (wok (Interval a)) a) (\<lambda>(ok, a').
       if \<not> ok then Inr (False, a' # as)
       else rbind (write_all wok as) (\<lambda>(ok', as'). Inr (ok', a' # as')))"

definition Write_series ::
  "(int \<Rightarrow> int \<Rightarrow> bool) \<Rightarrow> int \<Rightarrow> TimeSeries \<Rightarrow> fault + (bool \<times> TimeSeries)" where
  "Write_series wok now t =
     rbind (Write (wok (Interval (base t))) (base t)) (\<lambda>(ok, b).
       if \<not> ok then Inr (False, t\<lparr> base := b \<rparr>)
       else
         rbind (write_all wok (coarser t)) (\<lambda>(ok', cs).
           if \<not> ok' then Inr (False, t\<lparr> base := b, coarser := cs \<rparr>)
           else Inr (True, t\<lparr> base := b, coarser := cs, LastWritten := now \<rparr>)))"


section \<open>Well-formedness and specification-side notions\<close>

text \<open>The tag indices of a slot lie below \<open>n\<close>.\<close>

definition slot_ok :: "nat \<Rightarrow> 'p tick option \<Rightarrow> bool" where
  "slot_ok n slot = (case slot of None \<Rightarrow> True | Some tick \<Rightarrow> list_all (\<lambda>p. fst p < n) tick)"

text \<open>Every tag index stored in the chunk's data is an index of its tag table.\<close>

definition ticks_ok :: "'p chunk \<Rightarrow> bool" where
  "ticks_ok c = list_all (slot_ok (length (cTags c))) (cData c)"

text \<open>
  The tag table has no duplicates and \<open>tagMap\<close> is allocated and is its inverse:
  \<open>tagMap[Tags[i]] = i\<close>.
\<close>

definition tags_ok :: "'p chunk \<Rightarrow> bool" where
  "tags_ok c =
     (distinct (cTags c) \<and> ctagMap c = Some (map_of (zip (cTags c) [0..<length (cTags c)])))"

text \<open>A chunk with a nonzero end time has a tail slot, and that slot is not null.\<close>

definition tail_ok :: "'p chunk \<Rightarrow> bool" where
  "tail_ok c = (cEndTime c = 0 \<or> (cData c \<noteq> [] \<and> last (cData c) \<noteq> None))"

definition wf_chunk :: "int \<Rightarrow> 'p chunk \<Rightarrow> bool" where
  "wf_chunk r c = (cResolution c = r \<and> ticks_ok c)"

definition chunk_ok :: "int \<Rightarrow> 'p chunk option \<Rightarrow> bool" where
  "chunk_ok r c = (case c of None \<Rightarrow> False | Some c \<Rightarrow> wf_chunk r c \<and> tags_ok c)"

text \<open>
  Well-formed archives: positive resolution and chunk span, the span a multiple of the
  resolution, every chunk in memory present and well-formed, every chunk file
  well-formed, and an archive without chunks has nothing to persist.
\<close>

definition wf_archive :: "'p archive \<Rightarrow> bool" where
  "wf_archive a =
     (0 < Interval a \<and> 0 < ChunkSize a \<and> Interval a dvd ChunkSize a
      \<and> list_all (chunk_ok (Interval a)) (chunks a)
      \<and> list_all (\<lambda>p. wf_chunk (Interval a) (snd p)) (files a)
      \<and> (case lastChunk a of None \<Rightarrow> True | Some c \<Rightarrow> tail_ok c)
      \<and> (chunks a = [] \<longrightarrow> EndTime a \<le> lastWrite a))"



text \<open>A slot read through the chunk's \<open>tagMap\<close>: the value stored for a signal name.\<close>

definition by_name :: "'p chunk \<Rightarrow> (nat \<times> 'v) list \<Rightarrow> string \<rightharpoonup> 'v" where
  "by_name c tick =
     (\<lambda>name. case ctagMap c of
                None \<Rightarrow> None
              | Some m \<Rightarrow> (case m name of None \<Rightarrow> None | Some i \<Rightarrow> map_of tick i))"

text \<open>The non-null entries of a per-signal array, in order.\<close>

definition present :: "'a option list \<Rightarrow> 'a list" where
  "present v = map the (filter (\<lambda>x. x \<noteq> None) v)"

text \<open>
  The specification's rounding: \<open>ceil(t / r) * r\<close>, the least multiple of \<open>r\<close> that is
  at least \<open>t\<close>; \<open>tsNorm\<close> is compared with it below.
\<close>

definition ceil_mult :: "int \<Rightarrow> int \<Rightarrow> int" where
  "ceil_mult r t = r * (- ((- t) div r))"


text \<open>
  A client of one archive: a sequence of \<open>Append\<close> and \<open>Write\<close> calls, run in order from a
  given state. A \<open>Write\<close> that returns an error leaves the archive to the calls after it.
  \<open>positive_call\<close>: the timestamp of an \<open>Append\<close> is positive (seconds since the epoch).
\<close>

datatype 'p call = CallAppend "(string \<times> 'p) list" int | CallWrite "int \<Rightarrow> bool"

fun run_calls :: "'p call list \<Rightarrow> 'p archive \<Rightarrow> fault + 'p archive" where
  "run_calls [] a = Inr a"
| "run_calls (CallAppend val ts # cs) a = rbind (Append a val ts) (run_calls cs)"
| "run_calls (CallWrite wok # cs) a = rbind (Write wok a) (\<lambda>(ok, a'). run_calls cs a')"

fun positive_call :: "'p call \<Rightarrow> bool" where
  "positive_call (CallAppend val ts) = (0 < ts)"
| "positive_call (CallWrite wok) = True"


section \<open>Facts about the chunk operations\<close>

lemma rbind_Inr: "rbind (Inr x) f = f x"
  by (simp add: rbind_def)

lemma rbind_Inl: "rbind (Inl e) f = Inl e"
  by (simp add: rbind_def)

lemma sdiv_nonneg: "0 \<le> a \<Longrightarrow> 0 < b \<Longrightarrow> a sdiv b = a div (b::int)"
  by (cases "a = 0") (simp_all add: signed_divide_int_def)

lemma smod_nonneg: "0 \<le> a \<Longrightarrow> 0 < b \<Longrightarrow> a smod b = a mod (b::int)"
  by (cases "a = 0") (simp_all add: signed_modulo_int_def)

lemma fillTo_loop_aligned:
  "0 < cResolution c \<Longrightarrow>
   fillTo_loop (ts + int n * cResolution c) fv ts c =
     Inr (if n = 0 then c
          else c\<lparr> cData := cData c @ replicate n fv,
                  cEndTime := ts + (int n - 1) * cResolution c,
                  cdirty := True \<rparr>)"
proof (induction n arbitrary: ts c)
  case 0
  then show ?case by (simp add: fillTo_loop.simps)
next
  case (Suc n)
  let ?c = "c\<lparr> cData := cData c @ [fv], cEndTime := ts, cdirty := True \<rparr>"
  have r: "0 < cResolution ?c" using Suc.prems by simp
  have e: "ts + int (Suc n) * cResolution c = (ts + cResolution c) + int n * cResolution ?c"
    by (simp add: algebra_simps)
  have lt: "ts < ts + int (Suc n) * cResolution c"
    using Suc.prems by (simp add: add_pos_nonneg)
  show ?case
    apply (subst fillTo_loop.simps)
    apply (simp only: lt if_True)
    apply (subst e)
    apply (subst Suc.IH [OF r])
    using Suc.prems
    apply (auto simp: replicate_append_same algebra_simps)
    done
qed

lemma derefTags_loop_frame:
  "derefTags_loop val (c\<lparr> cData := d, cEndTime := e, cdirty := b \<rparr>) ret =
     rbind (derefTags_loop val c ret) (\<lambda>(t, c').
       Inr (t, c'\<lparr> cData := d, cEndTime := e, cdirty := b \<rparr>))"
proof (induction val arbitrary: c ret)
  case Nil
  then show ?case by (simp add: rbind_def)
next
  case (Cons p val)
  obtain tag v where p: "p = (tag, v)" by (cases p)
  show ?case
  proof (cases "ctagMap c")
    case None
    then show ?thesis by (simp add: p rbind_def)
  next
    case (Some m)
    show ?thesis
    proof (cases "m tag")
      case None
      let ?c' = "c\<lparr> ctagMap := Some (m(tag \<mapsto> length (cTags c))), cTags := cTags c @ [tag] \<rparr>"
      have sw: "c\<lparr> cData := d, cEndTime := e, cdirty := b,
                  ctagMap := Some (m(tag \<mapsto> length (cTags c))), cTags := cTags c @ [tag] \<rparr>
          = ?c'\<lparr> cData := d, cEndTime := e, cdirty := b \<rparr>" by simp
      show ?thesis using None Some Cons.IH [of ?c'] by (simp add: p Let_def sw)
    next
      case (Some i)
      then show ?thesis using \<open>ctagMap c = Some m\<close> Cons.IH [of c] by (simp add: p)
    qed
  qed
qed

lemma derefTags_loop_fields:
  "derefTags_loop val c ret = Inr (t, c') \<Longrightarrow>
   cData c' = cData c \<and> cEndTime c' = cEndTime c \<and> cStartTime c' = cStartTime c
   \<and> cResolution c' = cResolution c \<and> cdirty c' = cdirty c"
proof (induction val arbitrary: c ret)
  case Nil
  then show ?case by simp
next
  case (Cons p val)
  obtain tag v where p: "p = (tag, v)" by (cases p)
  show ?case
  proof (cases "ctagMap c")
    case None
    then show ?thesis using Cons.prems by (simp add: p)
  next
    case (Some m)
    show ?thesis
    proof (cases "m tag")
      case None
      let ?c' = "c\<lparr> ctagMap := Some (m(tag \<mapsto> length (cTags c))), cTags := cTags c @ [tag] \<rparr>"
      have "derefTags_loop val ?c' (AList.update (length (cTags c)) v ret) = Inr (t, c')"
        using Cons.prems None Some by (simp add: p Let_def)
      then show ?thesis using Cons.IH [of ?c'] by simp
    next
      case (Some i)
      then have "derefTags_loop val c (AList.update i v ret) = Inr (t, c')"
        using Cons.prems \<open>ctagMap c = Some m\<close> by (simp add: p)
      then show ?thesis using Cons.IH [of c] by simp
    qed
  qed
qed

lemma derefTags_loop_alloc:
  "ctagMap c \<noteq> None \<Longrightarrow> \<exists>t c'. derefTags_loop val c ret = Inr (t, c')"
proof (induction val arbitrary: c ret)
  case Nil
  then show ?case by simp
next
  case (Cons p val)
  obtain tag v where p: "p = (tag, v)" by (cases p)
  obtain m where m: "ctagMap c = Some m" using Cons.prems by auto
  show ?case
  proof (cases "m tag")
    case None
    let ?c' = "c\<lparr> ctagMap := Some (m(tag \<mapsto> length (cTags c))), cTags := cTags c @ [tag] \<rparr>"
    have "ctagMap ?c' \<noteq> None" by simp
    then show ?thesis using Cons.IH [of ?c'] None m by (simp add: p Let_def)
  next
    case (Some i)
    then show ?thesis using Cons.IH [OF Cons.prems] m by (simp add: p)
  qed
qed

section \<open>Timestamps, reads and appends of well-formed archives\<close>

lemma ceil_mult_alt:
  assumes r: "0 < r"
  shows "ceil_mult r t = (if t mod r = 0 then t else t - t mod r + r)"
proof -
  have d: "r * (t div r) = t - t mod r"
    using mult_div_mod_eq [of r t] by linarith
  have "(- t) div r = (if t mod r = 0 then - (t div r) else - (t div r) - 1)"
    using r by (simp add: zdiv_zminus1_eq_if)
  then have "ceil_mult r t = (if t mod r = 0 then r * (t div r) else r * (t div r) + r)"
    by (simp add: ceil_mult_def algebra_simps)
  then show ?thesis using d by simp
qed

lemma ceil_mult_ge:
  assumes r: "0 < r"
  shows "t \<le> ceil_mult r t"
proof -
  have "t mod r < r" using r by simp
  then show ?thesis unfolding ceil_mult_alt [OF r] by simp
qed




lemma ceil_mult_nonneg: "0 < r \<Longrightarrow> 0 \<le> t \<Longrightarrow> 0 \<le> ceil_mult r t"
  using ceil_mult_ge [of r t] by simp

lemma tsNorm_ceil:
  assumes r: "0 < Interval a"
  shows "tsNorm a t = Inr (ceil_mult (Interval a) t)"
proof (cases "0 \<le> t")
  case True
  have m: "t smod Interval a = t mod Interval a"
    using True r by (cases "t = 0") (simp_all add: signed_modulo_int_def)
  have nn: "0 \<le> t mod Interval a" using r by simp
  have z: "\<not> 0 < t mod Interval a \<Longrightarrow> t mod Interval a = 0" using nn by linarith
  show ?thesis
    using r z by (auto simp add: tsNorm_def imod_def rbind_def Let_def m ceil_mult_alt)
next
  case False
  then have neg: "t < 0" by simp
  have m: "t smod Interval a = - ((- t) mod Interval a)"
    using neg r by (simp add: signed_modulo_int_def)
  have nn: "0 \<le> (- t) mod Interval a" using r by simp
  have d: "Interval a * ((- t) div Interval a) = - t - (- t) mod Interval a"
    using mult_div_mod_eq [of "Interval a" "- t"] by linarith
  have "ceil_mult (Interval a) t = - (Interval a * ((- t) div Interval a))"
    by (simp add: ceil_mult_def)
  then have c: "ceil_mult (Interval a) t = t + (- t) mod Interval a"
    using d by linarith
  have nlt: "\<not> t + (- t) mod Interval a < t" using nn by linarith
  show ?thesis
    using r nlt by (simp add: tsNorm_def imod_def rbind_def Let_def m c)
qed


lemma map_of_update_lookup:
  "map_of (AList.update k v al) k' = (if k' = k then Some v else map_of al k')"
  by (simp add: update_conv')

lemma set_update_subset:
  "p \<in> set (AList.update k v al) \<Longrightarrow> p = (k, v) \<or> p \<in> set al"
  by (induction al) (auto split: if_splits)

















lemma map_of_snoc_fresh: "map_of l k = None \<Longrightarrow> map_of (l @ [(k, v)]) = (map_of l)(k \<mapsto> v)"
  by (induction l) (auto simp: fun_eq_iff split: if_splits)

lemma tags_ok_lookup:
  assumes "tags_ok c" and tm: "ctagMap c = Some m"
  shows "m name = Some i \<longleftrightarrow> i < length (cTags c) \<and> cTags c ! i = name"
proof -
  have d: "distinct (cTags c)" and m: "m = map_of (zip (cTags c) [0..<length (cTags c)])"
    using assms by (simp_all add: tags_ok_def)
  show ?thesis
  proof
    assume "m name = Some i"
    then have "(name, i) \<in> set (zip (cTags c) [0..<length (cTags c)])"
      unfolding m by (rule map_of_SomeD)
    then show "i < length (cTags c) \<and> cTags c ! i = name"
      by (auto simp: set_zip)
  next
    assume a: "i < length (cTags c) \<and> cTags c ! i = name"
    have "(name, i) \<in> set (zip (cTags c) [0..<length (cTags c)])"
      using a by (auto simp: set_zip intro!: exI [of _ i])
    moreover have "distinct (map fst (zip (cTags c) [0..<length (cTags c)]))"
      using d by simp
    ultimately show "m name = Some i" unfolding m by (rule map_of_is_SomeI [rotated])
  qed
qed

lemma tags_ok_extend:
  assumes ok: "tags_ok c" and tm: "ctagMap c = Some m" and nw: "m tag = None"
  shows "tags_ok (c\<lparr> ctagMap := Some (m(tag \<mapsto> length (cTags c))), cTags := cTags c @ [tag] \<rparr>)"
proof -
  have d: "distinct (cTags c)" and m: "m = map_of (zip (cTags c) [0..<length (cTags c)])"
    using ok tm by (simp_all add: tags_ok_def)
  have notin: "tag \<notin> set (cTags c)"
  proof
    assume "tag \<in> set (cTags c)"
    then obtain i where "i < length (cTags c)" "cTags c ! i = tag" by (auto simp: in_set_conv_nth)
    then have "m tag = Some i" using tags_ok_lookup [OF ok tm] by simp
    then show False using nw by simp
  qed
  have z: "zip (cTags c @ [tag]) [0..<Suc (length (cTags c))]
      = zip (cTags c) [0..<length (cTags c)] @ [(tag, length (cTags c))]"
    by simp
  have nw': "map_of (zip (cTags c) [0..<length (cTags c)]) tag = None"
    using nw m by simp
  have "map_of (zip (cTags c) [0..<length (cTags c)] @ [(tag, length (cTags c))])
      = (map_of (zip (cTags c) [0..<length (cTags c)]))(tag \<mapsto> length (cTags c))"
    using nw' by (rule map_of_snoc_fresh)
  then show ?thesis using d notin m by (simp add: tags_ok_def z del: upt_Suc)
qed

lemma derefTags_loop_props:
  assumes "tags_ok c" and "list_all (\<lambda>p. fst p < length (cTags c)) ret" and "distinct (map fst ret)"
  shows "\<exists>ret' c'. derefTags_loop val c ret = Inr (ret', c') \<and> tags_ok c'
       \<and> list_all (\<lambda>p. fst p < length (cTags c')) ret'
       \<and> distinct (map fst ret')
       \<and> length (cTags c) \<le> length (cTags c')
       \<and> by_name c' ret' = by_name c ret ++ map_of (rev val)"
  using assms
proof (induction val arbitrary: c ret)
  case Nil
  then show ?case by simp
next
  case (Cons q val)
  obtain tag v where q: "q = (tag, v)" by (cases q)
  obtain m where tm: "ctagMap c = Some m" using Cons.prems(1) by (auto simp: tags_ok_def)
  have e: "by_name c ret ++ map_of (rev ((tag, v) # val)) = (by_name c ret)(tag \<mapsto> v) ++ map_of (rev val)"
    by (simp add: map_add_def fun_eq_iff split: option.splits)
  show ?case
  proof (cases "m tag")
    case (Some i)
    have il: "i < length (cTags c)" and it: "cTags c ! i = tag"
      using tags_ok_lookup [OF Cons.prems(1) tm] Some by simp_all
    let ?ret = "AList.update i v ret"
    have r1: "list_all (\<lambda>p. fst p < length (cTags c)) ?ret"
      using Cons.prems(2) il by (auto simp: list_all_iff dest!: set_update_subset)
    have r2: "distinct (map fst ?ret)" using Cons.prems(3) by (rule distinct_update)
    have bn: "by_name c ?ret = (by_name c ret)(tag \<mapsto> v)"
    proof (rule ext)
      fix name
      show "by_name c ?ret name = ((by_name c ret)(tag \<mapsto> v)) name"
      proof (cases "name = tag")
        case True
        then show ?thesis using Some tm by (simp add: by_name_def update_conv')
      next
        case False
        then have "m name \<noteq> Some i" using tags_ok_lookup [OF Cons.prems(1) tm] it by auto
        then show ?thesis using False tm
          by (auto simp: by_name_def update_conv' split: option.splits)
      qed
    qed
    have st: "derefTags_loop ((tag, v) # val) c ret = derefTags_loop val c ?ret"
      using Some tm by simp
    have ih: "\<exists>ret' c'. derefTags_loop val c ?ret = Inr (ret', c') \<and> tags_ok c'
        \<and> list_all (\<lambda>p. fst p < length (cTags c')) ret'
        \<and> distinct (map fst ret') \<and> length (cTags c) \<le> length (cTags c')
        \<and> by_name c' ret' = (by_name c ret)(tag \<mapsto> v) ++ map_of (rev val)"
      using Cons.IH [OF Cons.prems(1) r1 r2] unfolding bn .
    show ?thesis unfolding q st e by (rule ih)
  next
    case None
    let ?i = "length (cTags c)"
    let ?c = "c\<lparr> ctagMap := Some (m(tag \<mapsto> ?i)), cTags := cTags c @ [tag] \<rparr>"
    let ?ret = "AList.update ?i v ret"
    have t1: "tags_ok ?c" using Cons.prems(1) tm None by (rule tags_ok_extend)
    have r1: "list_all (\<lambda>p. fst p < length (cTags ?c)) ?ret"
      using Cons.prems(2) by (auto simp: list_all_iff dest!: set_update_subset)
    have r2: "distinct (map fst ?ret)" using Cons.prems(3) by (rule distinct_update)
    have fresh: "map_of ret ?i = None"
    proof (cases "map_of ret ?i")
      case (Some x)
      then have "(?i, x) \<in> set ret" by (rule map_of_SomeD)
      then show ?thesis using Cons.prems(2) by (auto simp: list_all_iff)
    qed simp
    have bn: "by_name ?c ?ret = (by_name c ret)(tag \<mapsto> v)"
    proof (rule ext)
      fix name
      show "by_name ?c ?ret name = ((by_name c ret)(tag \<mapsto> v)) name"
      proof (cases "name = tag")
        case True
        then show ?thesis by (simp add: by_name_def update_conv')
      next
        case False
        have "m name \<noteq> Some ?i" using tags_ok_lookup [OF Cons.prems(1) tm] by auto
        then show ?thesis using False tm
          by (auto simp: by_name_def update_conv' split: option.splits)
      qed
    qed
    have st: "derefTags_loop ((tag, v) # val) c ret = derefTags_loop val ?c ?ret"
      using None tm by (simp add: Let_def)
    obtain ret' c' where ih: "derefTags_loop val ?c ?ret = Inr (ret', c')" "tags_ok c'"
        "list_all (\<lambda>p. fst p < length (cTags c')) ret'"
        "distinct (map fst ret')" "length (cTags ?c) \<le> length (cTags c')"
        "by_name c' ret' = (by_name c ret)(tag \<mapsto> v) ++ map_of (rev val)"
      using Cons.IH [OF t1 r1 r2] unfolding bn by blast
    have le: "length (cTags c) \<le> length (cTags c')" using ih(5) by simp
    show ?thesis unfolding q st e using ih(1-4,6) le by blast
  qed
qed

lemma resolveTags_by_name:
  assumes ok: "tags_ok c"
  shows "list_all (\<lambda>p. fst p < length (cTags c)) tick \<Longrightarrow> distinct (map fst tick) \<Longrightarrow>
     \<exists>m. resolveTags (cTags c) tick ret = Inr m \<and> map_of m = map_of ret ++ by_name c tick"
proof (induction tick arbitrary: ret)
  case Nil
  then show ?case by (simp add: by_name_def map_add_def fun_eq_iff split: option.splits)
next
  case (Cons q tick)
  obtain i v where q: "q = (i, v)" by (cases q)
  obtain tm where tm: "ctagMap c = Some tm" using ok by (auto simp: tags_ok_def)
  have il: "i < length (cTags c)" using Cons.prems(1) q by simp
  have ni: "map_of tick i = None"
    using Cons.prems(2) q by (cases "map_of tick i") (auto dest!: map_of_SomeD simp: rev_image_eqI)
  obtain m where m: "resolveTags (cTags c) tick (AList.update (cTags c ! i) v ret) = Inr m"
    and mm: "map_of m = map_of (AList.update (cTags c ! i) v ret) ++ by_name c tick"
    using Cons.IH [of "AList.update (cTags c ! i) v ret"] Cons.prems q by auto
  have "map_of (AList.update (cTags c ! i) v ret) ++ by_name c tick = map_of ret ++ by_name c (q # tick)"
  proof (rule ext)
    fix name
    show "(map_of (AList.update (cTags c ! i) v ret) ++ by_name c tick) name
        = (map_of ret ++ by_name c (q # tick)) name"
    proof (cases "name = cTags c ! i")
      case True
      then have "tm name = Some i" using tags_ok_lookup [OF ok tm] il by simp
      then show ?thesis using True ni tm
        by (simp add: map_add_def by_name_def q update_conv')
    next
      case False
      then have "tm name \<noteq> Some i" using tags_ok_lookup [OF ok tm] by auto
      then show ?thesis using False tm
        by (auto simp: map_add_def by_name_def q update_conv' split: option.splits)
    qed
  qed
  then show ?case using m mm il by (simp add: q)
qed

lemma fillTo_loop_shape:
  "0 < cResolution c \<Longrightarrow>
   \<exists>n e d. fillTo_loop timestamp fv ts c =
      Inr (c\<lparr> cData := cData c @ replicate n fv, cEndTime := e, cdirty := d \<rparr>)"
proof (induction "nat (timestamp - ts)" arbitrary: ts c rule: less_induct)
  case less
  show ?case
  proof (cases "ts < timestamp")
    case False
    have "c = c\<lparr> cData := cData c @ replicate 0 fv, cEndTime := cEndTime c, cdirty := cdirty c \<rparr>"
      by simp
    then have "fillTo_loop timestamp fv ts c =
        Inr (c\<lparr> cData := cData c @ replicate 0 fv, cEndTime := cEndTime c, cdirty := cdirty c \<rparr>)"
      using False by (subst fillTo_loop.simps) simp
    then show ?thesis by blast
  next
    case True
    let ?c = "c\<lparr> cData := cData c @ [fv], cEndTime := ts, cdirty := True \<rparr>"
    have m: "nat (timestamp - (ts + cResolution c)) < nat (timestamp - ts)"
      using True less.prems by simp
    have r: "0 < cResolution ?c" using less.prems by simp
    obtain n e d where
      "fillTo_loop timestamp fv (ts + cResolution c) ?c =
         Inr (?c\<lparr> cData := cData ?c @ replicate n fv, cEndTime := e, cdirty := d \<rparr>)"
      using less.hyps [OF m r] by auto
    then have "fillTo_loop timestamp fv ts c =
        Inr (c\<lparr> cData := cData c @ replicate (Suc n) fv, cEndTime := e, cdirty := d \<rparr>)"
      using True less.prems
      by (subst fillTo_loop.simps) (simp add: replicate_append_same)
    then show ?thesis by blast
  qed
qed

lemma lead_loop_shape:
  "0 < cResolution c \<Longrightarrow>
   \<exists>n. lead_loop timestamp ts c = Inr (c\<lparr> cData := cData c @ replicate n None \<rparr>)"
proof (induction "nat (timestamp - ts)" arbitrary: ts c rule: less_induct)
  case less
  show ?case
  proof (cases "ts < timestamp")
    case False
    have "c = c\<lparr> cData := cData c @ replicate 0 None \<rparr>" by simp
    then have "lead_loop timestamp ts c = Inr (c\<lparr> cData := cData c @ replicate 0 None \<rparr>)"
      using False by (subst lead_loop.simps) simp
    then show ?thesis by blast
  next
    case True
    let ?c = "c\<lparr> cData := cData c @ [None] \<rparr>"
    have m: "nat (timestamp - (ts + cResolution c)) < nat (timestamp - ts)"
      using True less.prems by simp
    have r: "0 < cResolution ?c" using less.prems by simp
    obtain n where
      "lead_loop timestamp (ts + cResolution c) ?c = Inr (?c\<lparr> cData := cData ?c @ replicate n None \<rparr>)"
      using less.hyps [OF m r] by auto
    then have "lead_loop timestamp ts c = Inr (c\<lparr> cData := cData c @ replicate (Suc n) None \<rparr>)"
      using True less.prems
      by (subst lead_loop.simps) (simp add: replicate_append_same)
    then show ?thesis by blast
  qed
qed

lemma fillTo_shape:
  assumes "0 < cResolution c"
  shows "\<exists>xs e d. fillTo c timestamp = Inr (c\<lparr> cData := cData c @ xs, cEndTime := e, cdirty := d \<rparr>)
           \<and> set xs \<subseteq> {None, latestRaw c}"
proof -
  let ?fv = "if (timestamp - cEndTime c) sdiv cResolution c < 3 then latestRaw c else None"
  obtain n e d where
    "fillTo_loop timestamp ?fv (cEndTime c + cResolution c) c =
       Inr (c\<lparr> cData := cData c @ replicate n ?fv, cEndTime := e, cdirty := d \<rparr>)"
    using fillTo_loop_shape [OF assms] by blast
  then have "fillTo c timestamp = Inr (c\<lparr> cData := cData c @ replicate n ?fv, cEndTime := e, cdirty := d \<rparr>)"
    using assms by (simp add: fillTo_def idiv_def rbind_def Let_def)
  moreover have "set (replicate n ?fv) \<subseteq> {None, latestRaw c}" by auto
  ultimately show ?thesis by blast
qed

lemma append_chunk_new:
  assumes r: "0 < cResolution c" and lt: "cEndTime c < ts"
    and dt: "derefTags c val = Inr (new, c3)"
  shows "\<exists>xs. append_chunk c val ts =
            Inr (c3\<lparr> cData := cData c @ xs @ [Some new], cEndTime := ts, cdirty := True \<rparr>)
          \<and> set xs \<subseteq> {None, latestRaw c}"
proof -
  have "\<exists>xs1 e1 d1.
      (if \<not> empty_chunk c \<and> ts > cEndTime c + cResolution c then fillTo c ts else Inr c)
          = Inr (c\<lparr> cData := cData c @ xs1, cEndTime := e1, cdirty := d1 \<rparr>)
      \<and> set xs1 \<subseteq> {None, latestRaw c}"
  proof (cases "\<not> empty_chunk c \<and> ts > cEndTime c + cResolution c")
    case True
    then show ?thesis using fillTo_shape [OF r, of ts] by auto
  next
    case False
    have "(if \<not> empty_chunk c \<and> ts > cEndTime c + cResolution c then fillTo c ts else Inr c)
          = Inr c"
      using False by (simp only: if_False)
    then have "(if \<not> empty_chunk c \<and> ts > cEndTime c + cResolution c then fillTo c ts else Inr c)
          = Inr (c\<lparr> cData := cData c @ [], cEndTime := cEndTime c, cdirty := cdirty c \<rparr>)
        \<and> set [] \<subseteq> {None, latestRaw c}"
      by simp
    then show ?thesis by blast
  qed
  then obtain xs1 e1 d1 where
    f: "(if \<not> empty_chunk c \<and> ts > cEndTime c + cResolution c then fillTo c ts else Inr c)
          = Inr (c\<lparr> cData := cData c @ xs1, cEndTime := e1, cdirty := d1 \<rparr>)"
    and x1: "set xs1 \<subseteq> {None, latestRaw c}"
    by blast
  let ?c1 = "c\<lparr> cData := cData c @ xs1, cEndTime := e1, cdirty := d1 \<rparr>"
  have r1: "0 < cResolution ?c1" using r by simp
  have "\<exists>n.
      (if empty_chunk ?c1 \<and> ts \<noteq> cStartTime ?c1 then lead_loop ts (cStartTime ?c1) ?c1 else Inr ?c1)
          = Inr (c\<lparr> cData := cData c @ xs1 @ replicate n None, cEndTime := e1, cdirty := d1 \<rparr>)"
  proof (cases "empty_chunk ?c1 \<and> ts \<noteq> cStartTime ?c1")
    case True
    obtain n where "lead_loop ts (cStartTime ?c1) ?c1 = Inr (?c1\<lparr> cData := cData ?c1 @ replicate n None \<rparr>)"
      using lead_loop_shape [OF r1] by blast
    then have "(if empty_chunk ?c1 \<and> ts \<noteq> cStartTime ?c1 then lead_loop ts (cStartTime ?c1) ?c1 else Inr ?c1)
          = Inr (c\<lparr> cData := cData c @ xs1 @ replicate n None, cEndTime := e1, cdirty := d1 \<rparr>)"
      using True by simp
    then show ?thesis by blast
  next
    case False
    then have "(if empty_chunk ?c1 \<and> ts \<noteq> cStartTime ?c1 then lead_loop ts (cStartTime ?c1) ?c1 else Inr ?c1)
        = Inr ?c1" by (simp only: if_False)
    then have "(if empty_chunk ?c1 \<and> ts \<noteq> cStartTime ?c1 then lead_loop ts (cStartTime ?c1) ?c1 else Inr ?c1)
          = Inr (c\<lparr> cData := cData c @ xs1 @ replicate 0 None, cEndTime := e1, cdirty := d1 \<rparr>)"
      by simp
    then show ?thesis by blast
  qed
  then obtain n where
    g: "(if empty_chunk ?c1 \<and> ts \<noteq> cStartTime ?c1 then lead_loop ts (cStartTime ?c1) ?c1 else Inr ?c1)
          = Inr (c\<lparr> cData := cData c @ xs1 @ replicate n None, cEndTime := e1, cdirty := d1 \<rparr>)"
    by blast
  let ?xs = "xs1 @ replicate n None"
  let ?c2 = "c\<lparr> cData := cData c @ ?xs, cEndTime := e1, cdirty := d1 \<rparr>"
  have dt2: "derefTags ?c2 val =
      Inr (new, c3\<lparr> cData := cData c @ ?xs, cEndTime := e1, cdirty := d1 \<rparr>)"
    using dt unfolding derefTags_def derefTags_loop_frame by (simp add: rbind_def)
  have nlt: "\<not> ts < cEndTime c" "ts \<noteq> cEndTime c" using lt by simp_all
  have "append_chunk c val ts =
      Inr (c3\<lparr> cData := cData c @ ?xs @ [Some new], cEndTime := ts, cdirty := True \<rparr>)"
    unfolding append_chunk_def
    by (simp only: nlt if_False f g rbind_Inr dt2 split_conv append_assoc) simp
  moreover have "set ?xs \<subseteq> {None, latestRaw c}" using x1 by auto
  ultimately show ?thesis by blast
qed

lemma slot_ok_mono: "slot_ok n slot \<Longrightarrow> n \<le> m \<Longrightarrow> slot_ok m slot"
  by (cases slot) (auto simp: slot_ok_def list_all_iff)

lemma latestRaw_slot_ok: "ticks_ok c \<Longrightarrow> slot_ok (length (cTags c)) (latestRaw c)"
  by (auto simp: ticks_ok_def latestRaw_def list_all_iff slot_ok_def)

lemma derefTags_props:
  assumes "tags_ok c"
  shows "\<exists>new c'. derefTags c val = Inr (new, c') \<and> tags_ok c'
       \<and> list_all (\<lambda>p. fst p < length (cTags c')) new
       \<and> distinct (map fst new)
       \<and> length (cTags c) \<le> length (cTags c')
       \<and> by_name c' new = map_of (rev val)
       \<and> cData c' = cData c \<and> cEndTime c' = cEndTime c \<and> cStartTime c' = cStartTime c
       \<and> cResolution c' = cResolution c"
proof -
  have e: "by_name c [] = Map.empty" by (simp add: by_name_def fun_eq_iff split: option.splits)
  obtain new c' where p: "derefTags_loop val c [] = Inr (new, c')" "tags_ok c'"
      "list_all (\<lambda>p. fst p < length (cTags c')) new" "distinct (map fst new)"
      "length (cTags c) \<le> length (cTags c')"
      "by_name c' new = by_name c [] ++ map_of (rev val)"
    using derefTags_loop_props [OF assms, of "[]" val] by auto
  have "by_name c' new = map_of (rev val)" using p(6) unfolding e by simp
  then show ?thesis
    using p(1-5) derefTags_loop_fields [OF p(1)] by (auto simp: derefTags_def)
qed

lemma tags_ok_frame [simp]:
  "tags_ok (c\<lparr> cData := d, cEndTime := e, cdirty := b \<rparr>) = tags_ok c"
  "tags_ok (c\<lparr> cData := d \<rparr>) = tags_ok c"
  by (simp_all add: tags_ok_def)

lemma by_name_frame [simp]:
  "by_name (c\<lparr> cData := d, cEndTime := e, cdirty := b \<rparr>) tick = by_name c tick"
  by (simp add: by_name_def)

lemma merge_tick_keys:
  "list_all (\<lambda>p. fst p < n) new \<Longrightarrow> list_all (\<lambda>p. fst p < n) old \<Longrightarrow>
   list_all (\<lambda>p. fst p < n) (merge_tick new old)"
  unfolding merge_tick_def
proof (induction new arbitrary: old)
  case Nil
  then show ?case by simp
next
  case (Cons q new)
  obtain k v where q: "q = (k, v)" by (cases q)
  have "list_all (\<lambda>p. fst p < n) (AList.update k v old)"
    using Cons.prems q by (auto simp: list_all_iff dest!: set_update_subset)
  then show ?case using Cons.IH [of "AList.update k v old"] Cons.prems(1) by (simp add: q)
qed

lemma append_chunk_wf:
  assumes wf: "wf_chunk r c" and tg: "tags_ok c" and tl: "tail_ok c" and r: "0 < r" and nz: "ts \<noteq> 0"
  shows "\<exists>c'. append_chunk c val ts = Inr c' \<and> wf_chunk r c' \<and> tags_ok c' \<and> tail_ok c'
          \<and> cStartTime c' = cStartTime c
          \<and> cEndTime c' = (if ts < cEndTime c then cEndTime c else ts)
          \<and> (cEndTime c < ts \<longrightarrow>
               (\<exists>m. latest c' = Inr (Some m) \<and> map_of m = map_of (rev val)))"
proof -
  have rc: "cResolution c = r" and tk: "ticks_ok c" using wf by (simp_all add: wf_chunk_def)
  obtain new c3 where dt: "derefTags c val = Inr (new, c3)" and t3: "tags_ok c3"
    and nk: "list_all (\<lambda>p. fst p < length (cTags c3)) new" and nd: "distinct (map fst new)"
    and le: "length (cTags c) \<le> length (cTags c3)"
    and bn: "by_name c3 new = map_of (rev val)"
    and fD: "cData c3 = cData c" "cEndTime c3 = cEndTime c" "cStartTime c3 = cStartTime c"
      "cResolution c3 = cResolution c"
    using derefTags_props [OF tg, of val] by blast
  have old_ok: "list_all (slot_ok (length (cTags c3))) (cData c)"
    using tk le by (auto simp: ticks_ok_def list_all_iff intro: slot_ok_mono)
  consider (drop) "ts < cEndTime c" | (merge) "ts = cEndTime c" | (new) "cEndTime c < ts"
    by linarith
  then show ?thesis
  proof cases
    case drop
    then show ?thesis using wf tg tl by (simp add: append_chunk_def)
  next
    case merge
    then have ne: "cData c \<noteq> []" and ls: "last (cData c) \<noteq> None"
      using tl nz by (auto simp: tail_ok_def)
    then obtain old where old: "last (cData c) = Some old" by auto
    let ?c' = "c3\<lparr> cData := butlast (cData c) @ [Some (merge_tick new old)] \<rparr>"
    have ap: "append_chunk c val ts = Inr ?c'"
      using merge ne old dt by (simp add: append_chunk_def rbind_Inr)
    have "slot_ok (length (cTags c3)) (Some old)"
      using old_ok ne old by (auto simp: list_all_iff dest: last_in_set)
    then have "list_all (\<lambda>p. fst p < length (cTags c3)) old" by (simp add: slot_ok_def)
    then have mk: "slot_ok (length (cTags c3)) (Some (merge_tick new old))"
      using merge_tick_keys [OF nk] by (simp add: slot_ok_def)
    have bl: "list_all (slot_ok (length (cTags c3))) (butlast (cData c))"
      using old_ok by (auto simp: list_all_iff dest: in_set_butlastD)
    have w: "wf_chunk r ?c'" using rc fD mk bl by (simp add: wf_chunk_def ticks_ok_def)
    have t: "tags_ok ?c'" using t3 by simp
    have tl': "tail_ok ?c'" by (simp add: tail_ok_def)
    show ?thesis using ap w t tl' fD merge by simp
  next
    case new
    have r': "0 < cResolution c" using r rc by simp
    obtain xs where ap: "append_chunk c val ts =
        Inr (c3\<lparr> cData := cData c @ xs @ [Some new], cEndTime := ts, cdirty := True \<rparr>)"
      and xs: "set xs \<subseteq> {None, latestRaw c}"
      using append_chunk_new [OF r' new dt] by blast
    let ?c' = "c3\<lparr> cData := cData c @ xs @ [Some new], cEndTime := ts, cdirty := True \<rparr>"
    have lr: "slot_ok (length (cTags c3)) (latestRaw c)"
      using latestRaw_slot_ok [OF tk] le by (rule slot_ok_mono)
    have xok: "list_all (slot_ok (length (cTags c3))) xs"
      using xs lr by (auto simp: list_all_iff slot_ok_def)
    have nk': "slot_ok (length (cTags c3)) (Some new)"
      using nk by (simp add: slot_ok_def)
    have w: "wf_chunk r ?c'" using rc fD old_ok xok nk' by (simp add: wf_chunk_def ticks_ok_def)
    have t: "tags_ok ?c'" using t3 by simp
    have tl': "tail_ok ?c'" by (simp add: tail_ok_def)
    obtain m where m: "resolveTags (cTags ?c') new [] = Inr m"
      and mm: "map_of m = map_of [] ++ by_name ?c' new"
      using resolveTags_by_name [OF t, of new "[]"] nk nd by auto
    have "latest ?c' = Inr (Some m)"
      using m by (simp add: latest_def latestRaw_def rbind_def)
    moreover have "map_of m = map_of (rev val)" using mm bn by simp
    ultimately show ?thesis using ap w t tl' new fD by simp
  qed
qed

lemma fillTo_wf:
  assumes wf: "wf_chunk r c" and tg: "tags_ok c" and r: "0 < r"
  shows "\<exists>c'. fillTo c t = Inr c' \<and> wf_chunk r c' \<and> tags_ok c'"
proof -
  have rc: "cResolution c = r" and tk: "ticks_ok c" using wf by (simp_all add: wf_chunk_def)
  have r': "0 < cResolution c" using r rc by simp
  obtain xs e d where f: "fillTo c t = Inr (c\<lparr> cData := cData c @ xs, cEndTime := e, cdirty := d \<rparr>)"
    and xs: "set xs \<subseteq> {None, latestRaw c}"
    using fillTo_shape [OF r', of t] by blast
  have "list_all (slot_ok (length (cTags c))) xs"
    using xs latestRaw_slot_ok [OF tk] by (auto simp: list_all_iff slot_ok_def)
  then have "wf_chunk r (c\<lparr> cData := cData c @ xs, cEndTime := e, cdirty := d \<rparr>)"
    using rc tk by (simp add: wf_chunk_def ticks_ok_def)
  then show ?thesis using f tg by simp
qed

lemma newChunk_ok: "wf_chunk r (newChunk r s)" "tags_ok (newChunk r s)" "tail_ok (newChunk r s)"
  "cEndTime (newChunk r s) = 0"
  by (simp_all add: newChunk_def wf_chunk_def ticks_ok_def tags_ok_def tail_ok_def)

lemma Append_wf:
  assumes wf: "wf_archive a" and pos: "0 < ts0"
  shows "\<exists>a'. Append a val ts0 = Inr a' \<and> wf_archive a'
     \<and> Interval a' = Interval a \<and> ChunkSize a' = ChunkSize a \<and> Retention a' = Retention a
     \<and> files a' = files a \<and> lastWrite a' = lastWrite a \<and> header a' = header a
     \<and> EndTime a' = ceil_mult (Interval a) ts0
     \<and> StartTime a' = (if StartTime a = 0 then ceil_mult (Interval a) ts0 else StartTime a)
     \<and> ((case lastChunk a of None \<Rightarrow> True | Some c \<Rightarrow> cEndTime c < ceil_mult (Interval a) ts0) \<longrightarrow>
          (\<exists>m. Latest a' = Inr (Some m, ceil_mult (Interval a) ts0) \<and> map_of m = map_of (rev val)))"
proof -
  let ?iv = "Interval a" and ?C = "ChunkSize a"
  define ts where "ts = ceil_mult ?iv ts0"
  have iv: "0 < ?iv" and C: "0 < ?C"
    and ch: "list_all (chunk_ok ?iv) (chunks a)"
    and fl: "list_all (\<lambda>p. wf_chunk ?iv (snd p)) (files a)"
    and tl: "case lastChunk a of None \<Rightarrow> True | Some c \<Rightarrow> tail_ok c"
    using wf by (simp_all add: wf_archive_def)
  have dv: "?iv dvd ?C" using wf by (simp add: wf_archive_def)
  have n: "tsNorm a ts0 = Inr ts" using tsNorm_ceil [OF iv] by (simp add: ts_def)
  have tpos: "0 < ts" using ceil_mult_ge [OF iv, of ts0] pos by (simp add: ts_def)
  have cz: "?C \<noteq> 0" using C by simp
  have bl: "list_all (chunk_ok ?iv) (butlast (chunks a))"
    using ch by (auto simp: list_all_iff dest: in_set_butlastD)
  have "\<exists>older lc0.
     (case lastChunk a of
          None \<Rightarrow>
            rbind (imod ts ?C) (\<lambda>m. Inr ([], newChunk ?iv (ts - m)))
        | Some lc \<Rightarrow>
            rbind (boundaryCheck a ts) (\<lambda>b.
              if b then
                rbind (chunkStart a ts) (\<lambda>nextStart.
                rbind (chunkEnd a (cStartTime lc)) (\<lambda>ce.
                rbind (if cEndTime lc < ce then fillTo lc nextStart else Inr lc) (\<lambda>lc'.
                  Inr (butlast (chunks a) @ [Some lc'], newChunk ?iv nextStart))))
              else Inr (butlast (chunks a), lc))) = Inr (older, lc0)
     \<and> list_all (chunk_ok ?iv) older \<and> wf_chunk ?iv lc0 \<and> tags_ok lc0 \<and> tail_ok lc0
     \<and> ((case lastChunk a of None \<Rightarrow> True | Some c \<Rightarrow> cEndTime c < ts) \<longrightarrow> cEndTime lc0 < ts)"
  proof (cases "lastChunk a")
    case None
    then show ?thesis using cz tpos by (simp add: imod_def rbind_def newChunk_ok)
  next
    case (Some lc)
    then have ne: "chunks a \<noteq> []" and ll: "last (chunks a) = Some lc"
      by (auto simp: lastChunk_def split: if_splits)
    have "chunk_ok ?iv (Some lc)" using ch ne ll by (auto simp: list_all_iff dest: last_in_set)
    then have lw: "wf_chunk ?iv lc" and lt: "tags_ok lc" by (simp_all add: chunk_ok_def)
    have ltl: "tail_ok lc" using tl Some by simp
    define ce where "ce = cStartTime lc - cStartTime lc smod ?C + ?C - ?iv"
    have cE: "chunkEnd a (cStartTime lc) = Inr ce"
      using cz by (simp add: chunkEnd_def chunkStart_def imod_def rbind_def ce_def)
    have bc: "boundaryCheck a ts = Inr (ts > ce)"
      using Some cE by (simp add: boundaryCheck_def rbind_def)
    show ?thesis
    proof (cases "ts > ce")
      case False
      then show ?thesis using Some bc bl lw lt ltl by (simp add: rbind_def)
    next
      case True
      have cs: "chunkStart a ts = Inr (ts - ts smod ?C)"
        using cz by (simp add: chunkStart_def imod_def rbind_def)
      obtain lc' where f: "(if cEndTime lc < ce then fillTo lc (ts - ts smod ?C) else Inr lc) = Inr lc'"
        and w': "wf_chunk ?iv lc'" and t': "tags_ok lc'"
        using fillTo_wf [OF lw lt iv, of "ts - ts smod ?C"] lw lt by (cases "cEndTime lc < ce") auto
      have "chunk_ok ?iv (Some lc')" using w' t' by (simp add: chunk_ok_def)
      then have "list_all (chunk_ok ?iv) (butlast (chunks a) @ [Some lc'])" using bl by simp
      then show ?thesis
        using Some bc True cs cE f tpos by (simp add: rbind_def newChunk_ok)
    qed
  qed
  then obtain older lc0 where
    sel: "(case lastChunk a of
          None \<Rightarrow>
            rbind (imod ts ?C) (\<lambda>m. Inr ([], newChunk ?iv (ts - m)))
        | Some lc \<Rightarrow>
            rbind (boundaryCheck a ts) (\<lambda>b.
              if b then
                rbind (chunkStart a ts) (\<lambda>nextStart.
                rbind (chunkEnd a (cStartTime lc)) (\<lambda>ce.
                rbind (if cEndTime lc < ce then fillTo lc nextStart else Inr lc) (\<lambda>lc'.
                  Inr (butlast (chunks a) @ [Some lc'], newChunk ?iv nextStart))))
              else Inr (butlast (chunks a), lc))) = Inr (older, lc0)"
    and ok: "list_all (chunk_ok ?iv) older" and w0: "wf_chunk ?iv lc0" and t0: "tags_ok lc0"
    and l0: "tail_ok lc0"
    and e0: "(case lastChunk a of None \<Rightarrow> True | Some c \<Rightarrow> cEndTime c < ts) \<longrightarrow> cEndTime lc0 < ts"
    by blast
  have tnz: "ts \<noteq> 0" using tpos by simp
  obtain c' where ap: "append_chunk lc0 val ts = Inr c'"
    and w1: "wf_chunk ?iv c'" and t1: "tags_ok c'" and l1: "tail_ok c'"
    and e1: "cEndTime c' = (if ts < cEndTime lc0 then cEndTime lc0 else ts)"
    and la: "cEndTime lc0 < ts \<longrightarrow> (\<exists>m. latest c' = Inr (Some m) \<and> map_of m = map_of (rev val))"
    using append_chunk_wf [OF w0 t0 l0 iv tnz, of val] by blast
  let ?a' = "a\<lparr> chunks := older @ [Some c'], EndTime := ts,
                StartTime := (if StartTime a = 0 then ts else StartTime a) \<rparr>"
  have res: "Append a val ts0 = Inr ?a'"
    unfolding Append_def by (simp only: n rbind_Inr sel split_conv ap)
  have lc': "lastChunk ?a' = Some c'" by (simp add: lastChunk_def)
  have "list_all (chunk_ok ?iv) (older @ [Some c'])" using ok w1 t1 by (simp add: chunk_ok_def)
  then have wf': "wf_archive ?a'"
    using iv C dv fl l1 lc' by (simp add: wf_archive_def)
  have lat: "(case lastChunk a of None \<Rightarrow> True | Some c \<Rightarrow> cEndTime c < ts) \<longrightarrow>
          (\<exists>m. Latest ?a' = Inr (Some m, ts) \<and> map_of m = map_of (rev val))"
  proof
    assume "case lastChunk a of None \<Rightarrow> True | Some c \<Rightarrow> cEndTime c < ts"
    then have lt: "cEndTime lc0 < ts" using e0 by simp
    then obtain m where "latest c' = Inr (Some m)" "map_of m = map_of (rev val)" using la by blast
    moreover have "cEndTime c' = ts" using e1 lt by simp
    ultimately show "\<exists>m. Latest ?a' = Inr (Some m, ts) \<and> map_of m = map_of (rev val)"
      by (simp add: Latest_def lc' rbind_def)
  qed
  show ?thesis
    using res wf' lat unfolding ts_def [symmetric] by simp
qed





lemma present_simps [simp]:
  "present [] = []" "present (None # v) = present v" "present (Some x # v) = x # present v"
  by (simp_all add: present_def)








lemma Write_fresh:
  "Write wok (NewArchive iv rt cs) =
     Inr (True, (NewArchive iv rt cs)\<lparr> header := Some (iv, cs, rt, 0, 0) \<rparr>)"
  by (simp add: Write_def NewArchive_def write_header_def)

lemma new_archive_fresh:
  assumes "new_archive lr dirs a = Inr (Inr ar)"
  shows "ar = (NewArchive (cfgResolution a) (cfgRetention a) (chunkSizeSlots * cfgResolution a))
              \<lparr> header := Some (cfgResolution a, chunkSizeSlots * cfgResolution a, cfgRetention a, 0, 0) \<rparr>"
  using assms
  by (auto simp: new_archive_def rbind_def Write_fresh imod_def split: if_splits sum.splits)

lemma sort_key_hd_least:
  assumes "x \<in> set xs"
  shows "f (hd (sort_key f xs)) \<le> f x"
proof -
  have s: "sorted (map f (sort_key f xs))" by (rule sorted_sort_key)
  have m: "x \<in> set (sort_key f xs)" using assms by simp
  then obtain y ys where e: "sort_key f xs = y # ys" by (cases "sort_key f xs") auto
  show ?thesis using s m unfolding e by auto
qed

lemma NewTimeSeries_base:
  assumes n: "NewTimeSeries cfg = Inr (Inr t)"
  shows "\<exists>rt. base t = (NewArchive (Interval (base t)) rt (chunkSizeSlots * Interval (base t)))
              \<lparr> header := Some (Interval (base t), chunkSizeSlots * Interval (base t), rt, 0, 0) \<rparr>"
    and "\<forall>a \<in> set (Archives cfg). Interval (base t) \<le> cfgResolution a"
proof -
  let ?s = "sort_key cfgResolution (Archives cfg)"
  have ne: "Archives cfg \<noteq> []" using n by (auto simp: NewTimeSeries_def)
  from n ne obtain b where
    h: "new_archive 1 [] (hd ?s) = Inr (Inr b)" and e: "base t = b"
    by (auto simp: NewTimeSeries_def Let_def rbind_def split: sum.splits)
  have b: "b = (NewArchive (cfgResolution (hd ?s)) (cfgRetention (hd ?s)) (chunkSizeSlots * cfgResolution (hd ?s)))
              \<lparr> header := Some (cfgResolution (hd ?s), chunkSizeSlots * cfgResolution (hd ?s), cfgRetention (hd ?s), 0, 0) \<rparr>"
    using h by (rule new_archive_fresh)
  have i: "Interval (base t) = cfgResolution (hd ?s)"
    unfolding e by (subst b) (simp add: NewArchive_def)
  show "\<exists>rt. base t = (NewArchive (Interval (base t)) rt (chunkSizeSlots * Interval (base t)))
              \<lparr> header := Some (Interval (base t), chunkSizeSlots * Interval (base t), rt, 0, 0) \<rparr>"
    unfolding i unfolding e using b by blast
  show "\<forall>a \<in> set (Archives cfg). Interval (base t) \<le> cfgResolution a"
    unfolding i by (auto intro: sort_key_hd_least)
qed

lemma walkData_nonpositive:
  assumes b: "base t = (NewArchive r rt (chunkSizeSlots * r))\<lparr> header := hd0 \<rparr>"
    and r: "r \<le> 0"
  shows "walkData t 0 (- r) r h = Inl (if r = 0 then DivideByZero else NegativeLength)"
proof (cases "r = 0")
  case True
  then show ?thesis by (simp add: walkData_def idiv_def rbind_def)
next
  case False
  then have neg: "r < 0" using r by simp
  have i: "Interval (base t) = r" "ChunkSize (base t) = chunkSizeSlots * r"
    unfolding b by (simp_all add: NewArchive_def)
  have c: "chunkSizeSlots * r \<noteq> 0" using neg by (simp add: chunkSizeSlots_def)
  have n0: "tsNorm (base t) 0 = Inr 0"
    using neg by (simp add: tsNorm_def imod_def rbind_def i signed_modulo_int_def)
  have nr: "tsNorm (base t) (- r) = Inr (- r)"
    using neg by (simp add: tsNorm_def imod_def rbind_def i signed_modulo_int_def signed_divide_int_def)
  have l: "idiv (- r - 0) r = Inr (- 1)" "imod (- r - 0) r = Inr 0"
    using neg by (simp_all add: idiv_def imod_def signed_modulo_int_def signed_divide_int_def)
  have cs: "chunkStart (base t) 0 = Inr 0"
    using c by (simp add: chunkStart_def imod_def rbind_def i signed_modulo_int_def)
  have g: "GetData (base t) 0 (- r) = Inl NegativeLength"
    unfolding GetData_def by (simp only: n0 nr rbind_Inr i l cs) simp
  show ?thesis
    unfolding walkData_def using False l by (simp add: rbind_def i g)
qed










lemma write_header_idem:
  "write_header (write_header a) = write_header a"
  "EndTime (write_header a) = EndTime a" "lastWrite (write_header a) = lastWrite a"
  by (simp_all add: write_header_def)

lemma Write_twice:
  assumes "Write wok a = Inr (True, a1)"
  shows "Write wok' a1 = Inr (True, a1)"
proof -
  have "\<exists>x. a1 = write_header (x\<lparr> lastWrite := EndTime x \<rparr>)"
    using assms by (auto simp: Write_def rbind_def split: if_splits sum.splits prod.splits)
  then obtain x where a1: "a1 = write_header (x\<lparr> lastWrite := EndTime x \<rparr>)" by blast
  show ?thesis unfolding a1 by (simp add: Write_def write_header_def)
qed

lemma write_all_twice:
  "write_all wok as = Inr (True, as1) \<Longrightarrow> write_all wok' as1 = Inr (True, as1)"
proof (induction as arbitrary: as1)
  case Nil
  then show ?case by simp
next
  case (Cons a as)
  from Cons.prems obtain a1 rest where
    w: "Write (wok (Interval a)) a = Inr (True, a1)"
    and r: "write_all wok as = Inr (True, rest)" and e: "as1 = a1 # rest"
    by (auto simp: rbind_def split: sum.splits prod.splits if_splits)
  have w2: "Write (wok' (Interval a1)) a1 = Inr (True, a1)" using w by (rule Write_twice)
  have r2: "write_all wok' rest = Inr (True, rest)" using r by (rule Cons.IH)
  show ?case unfolding e by (simp add: w2 r2 rbind_def)
qed

lemma exerciseRetention_props:
  "0 < ChunkSize a \<Longrightarrow>
   \<exists>a'. exerciseRetention a = Inr a' \<and> EndTime a' - StartTime a' \<le> Retention a'
     \<and> Interval a' = Interval a \<and> ChunkSize a' = ChunkSize a \<and> Retention a' = Retention a
     \<and> EndTime a' = EndTime a \<and> chunks a' = chunks a \<and> lastWrite a' = lastWrite a
     \<and> set (files a') \<subseteq> set (files a)
     \<and> (EndTime a - StartTime a \<le> Retention a \<longrightarrow> a' = a)"
proof (induction a rule: exerciseRetention.induct)
  case (1 a)
  show ?case
  proof (cases "Retention a < EndTime a - StartTime a")
    case True
    let ?cs = "StartTime a - StartTime a smod ChunkSize a"
    let ?a1 = "a\<lparr> files := AList.delete ?cs (files a), StartTime := ?cs + ChunkSize a \<rparr>"
    have nz: "ChunkSize a \<noteq> 0" and nn: "\<not> ChunkSize a < 0" using "1.prems" by simp_all
    have c1: "0 < ChunkSize ?a1" using "1.prems" by simp
    obtain a' where ih: "exerciseRetention ?a1 = Inr a'" "EndTime a' - StartTime a' \<le> Retention a'"
      "Interval a' = Interval ?a1" "ChunkSize a' = ChunkSize ?a1" "Retention a' = Retention ?a1"
      "EndTime a' = EndTime ?a1" "chunks a' = chunks ?a1" "lastWrite a' = lastWrite ?a1"
      "set (files a') \<subseteq> set (files ?a1)"
      using "1.IH" [OF True nz nn refl c1] by blast
    have st: "exerciseRetention a = exerciseRetention ?a1"
      using True nz nn by (subst exerciseRetention.simps) (simp add: Let_def)
    have sub: "set (files ?a1) \<subseteq> set (files a)" by (auto simp: AList.delete_eq)
    show ?thesis unfolding st using ih sub True by auto
  next
    case False
    have "exerciseRetention a = Inr a"
      using False by (subst exerciseRetention.simps) simp
    then show ?thesis using False by simp
  qed
qed

lemma wf_chunk_stored [simp]:
  "wf_chunk r (c\<lparr> ctagMap := m, cdirty := d \<rparr>) = wf_chunk r c"
  by (simp add: wf_chunk_def ticks_ok_def)

lemma write_chunks_total:
  assumes "list_all (chunk_ok r) cs" and "ChunkSize a \<noteq> 0"
    and "list_all (\<lambda>p. wf_chunk r (snd p)) fs"
  shows "\<exists>ok fs'. write_chunks wok a cs fs = Inr (ok, fs') \<and> list_all (\<lambda>p. wf_chunk r (snd p)) fs'"
  using assms
proof (induction cs arbitrary: fs)
  case Nil
  then show ?case by auto
next
  case (Cons x cs)
  obtain c where x: "x = Some c" and wc: "wf_chunk r c"
    using Cons.prems(1) by (cases x) (auto simp: chunk_ok_def)
  have rest: "list_all (chunk_ok r) cs" using Cons.prems(1) by simp
  show ?case
  proof (cases "cdirty c \<and> wok (cStartTime c - cStartTime c smod ChunkSize a)")
    case True
    let ?fs = "AList.update (cStartTime c - cStartTime c smod ChunkSize a)
                 (c\<lparr> ctagMap := None, cdirty := False \<rparr>) fs"
    have "list_all (\<lambda>p. wf_chunk r (snd p)) ?fs"
      using Cons.prems(3) wc by (auto simp: list_all_iff dest!: set_update_subset)
    then obtain ok fs' where "write_chunks wok a cs ?fs = Inr (ok, fs')"
      "list_all (\<lambda>p. wf_chunk r (snd p)) fs'"
      using Cons.IH [OF rest Cons.prems(2)] by blast
    then show ?thesis
      using True Cons.prems(2) by (simp add: x chunkStart_def imod_def rbind_def)
  next
    case False
    show ?thesis
    proof (cases "cdirty c")
      case True
      then show ?thesis using False Cons.prems(2,3)
        by (auto simp: x chunkStart_def imod_def rbind_def)
    next
      case nd: False
      then show ?thesis using Cons.IH [OF rest Cons.prems(2,3)] by (simp add: x)
    qed
  qed
qed

lemma Write_props:
  assumes wf: "wf_archive a"
  shows "\<exists>ok a'. Write wok a = Inr (ok, a') \<and> wf_archive a'
     \<and> Interval a' = Interval a \<and> ChunkSize a' = ChunkSize a \<and> Retention a' = Retention a
     \<and> EndTime a' = EndTime a
     \<and> (ok \<longrightarrow> lastWrite a' = EndTime a
              \<and> (if lastWrite a < EndTime a then EndTime a' - StartTime a' \<le> Retention a'
                  else StartTime a' = StartTime a))
     \<and> (\<not> ok \<longrightarrow> lastWrite a' = lastWrite a \<and> StartTime a' = StartTime a)"
proof (cases "lastWrite a < EndTime a")
  case False
  have "Write wok a = Inr (True, write_header (a\<lparr> lastWrite := EndTime a \<rparr>))"
    using False by (simp add: Write_def)
  moreover have "wf_archive (write_header (a\<lparr> lastWrite := EndTime a \<rparr>))"
    using wf by (auto simp: wf_archive_def write_header_def lastChunk_def split: if_splits)
  ultimately show ?thesis using False by (auto simp: write_header_def)
next
  case True
  let ?iv = "Interval a"
  have C: "0 < ChunkSize a" and ch: "list_all (chunk_ok ?iv) (chunks a)"
    and fl: "list_all (\<lambda>p. wf_chunk ?iv (snd p)) (files a)"
    and tl: "case lastChunk a of None \<Rightarrow> True | Some c \<Rightarrow> tail_ok c"
    and ne: "chunks a \<noteq> []"
    using wf True by (auto simp: wf_archive_def)
  have nz: "ChunkSize a \<noteq> 0" using C by simp
  obtain ok fs where wc: "write_chunks wok a (chunks a) (files a) = Inr (ok, fs)"
    and wfs: "list_all (\<lambda>p. wf_chunk ?iv (snd p)) fs"
    using write_chunks_total [OF ch nz fl] by blast
  show ?thesis
  proof (cases ok)
    case False
    have "Write wok a = Inr (False, a\<lparr> files := fs \<rparr>)"
      using True wc False by (simp add: Write_def rbind_def)
    moreover have "wf_archive (a\<lparr> files := fs \<rparr>)"
      using wf wfs by (auto simp: wf_archive_def lastChunk_def split: if_splits)
    ultimately show ?thesis by auto
  next
    case ok: True
    let ?a1 = "a\<lparr> files := fs, chunks := [lastChunk a] \<rparr>"
    have C1: "0 < ChunkSize ?a1" using C by simp
    obtain a' where er: "exerciseRetention ?a1 = Inr a'"
      and b: "EndTime a' - StartTime a' \<le> Retention a'"
      and f: "Interval a' = Interval ?a1" "ChunkSize a' = ChunkSize ?a1" "Retention a' = Retention ?a1"
        "EndTime a' = EndTime ?a1" "chunks a' = chunks ?a1" "lastWrite a' = lastWrite ?a1"
      and sf: "set (files a') \<subseteq> set (files ?a1)"
      using exerciseRetention_props [OF C1] by blast
    let ?a2 = "write_header (a'\<lparr> lastWrite := EndTime a' \<rparr>)"
    have w: "Write wok a = Inr (True, ?a2)"
      using True wc ok er by (simp add: Write_def rbind_def)
    have lc: "lastChunk a = last (chunks a)" using ne by (simp add: lastChunk_def)
    have "last (chunks a) \<in> set (chunks a)" using ne by simp
    then have lok: "chunk_ok ?iv (lastChunk a)" using ch lc by (simp add: list_all_iff)
    have wf2: "wf_archive ?a2"
      using wf f sf wfs lok tl
      by (auto simp: wf_archive_def write_header_def lastChunk_def list_all_iff)
    show ?thesis using w wf2 f b True by (auto simp: write_header_def)
  qed
qed

lemma wf_archive_new:
  "0 < iv \<Longrightarrow> 0 < n \<Longrightarrow> wf_archive (NewArchive iv rt (n * iv))"
  by (simp add: wf_archive_def NewArchive_def lastChunk_def)

lemma run_calls_retained:
  assumes "wf_archive a" and "0 \<le> Retention a" and "lastWrite a - StartTime a \<le> Retention a"
    and "list_all positive_call cs"
  shows "\<exists>a'. run_calls cs a = Inr a' \<and> wf_archive a' \<and> 0 \<le> Retention a'
           \<and> lastWrite a' - StartTime a' \<le> Retention a'"
  using assms
proof (induction cs arbitrary: a)
  case Nil
  then show ?case by simp
next
  case (Cons c cs)
  have rest: "list_all positive_call cs" using Cons.prems(4) by simp
  show ?case
  proof (cases c)
    case (CallAppend val ts)
    have ts: "0 < ts" using Cons.prems(4) CallAppend by simp
    have iv: "0 < Interval a" using Cons.prems(1) by (simp add: wf_archive_def)
    obtain a1 where ap: "Append a val ts = Inr a1" and w1: "wf_archive a1"
      and f: "Retention a1 = Retention a" "lastWrite a1 = lastWrite a"
      and st: "StartTime a1 = (if StartTime a = 0 then ceil_mult (Interval a) ts else StartTime a)"
      using Append_wf [OF Cons.prems(1) ts, of val] by blast
    have "ts \<le> ceil_mult (Interval a) ts" using iv by (rule ceil_mult_ge)
    then have "StartTime a \<le> StartTime a1" using st ts by simp
    then have i1: "lastWrite a1 - StartTime a1 \<le> Retention a1"
      using Cons.prems(3) f by linarith
    have r1: "0 \<le> Retention a1" using Cons.prems(2) f by simp
    show ?thesis
      using Cons.IH [OF w1 r1 i1 rest] by (simp add: CallAppend ap rbind_Inr)
  next
    case (CallWrite wok)
    obtain ok a1 where w: "Write wok a = Inr (ok, a1)" and w1: "wf_archive a1"
      and f: "Retention a1 = Retention a" "EndTime a1 = EndTime a"
      and s: "ok \<longrightarrow> lastWrite a1 = EndTime a
              \<and> (if lastWrite a < EndTime a then EndTime a1 - StartTime a1 \<le> Retention a1
                  else StartTime a1 = StartTime a)"
      and n: "\<not> ok \<longrightarrow> lastWrite a1 = lastWrite a \<and> StartTime a1 = StartTime a"
      using Write_props [OF Cons.prems(1), of wok] by blast
    have i1: "lastWrite a1 - StartTime a1 \<le> Retention a1"
    proof (cases ok)
      case True
      show ?thesis
      proof (cases "lastWrite a < EndTime a")
        case lt: True
        then show ?thesis using s True f by simp
      next
        case ge: False
        then have "lastWrite a1 = EndTime a" "StartTime a1 = StartTime a" "EndTime a \<le> lastWrite a"
          using s True by simp_all
        then show ?thesis using Cons.prems(3) f by linarith
      qed
    next
      case False
      then show ?thesis using n Cons.prems(3) f by simp
    qed
    have r1: "0 \<le> Retention a1" using Cons.prems(2) f by simp
    show ?thesis
      using Cons.IH [OF w1 r1 i1 rest] by (simp add: CallWrite w rbind_Inr)
  qed
qed








section \<open>Gap policy of a chunk append\<close>

text \<open>
  C1, as stated: on a nonempty chunk, an append at \<open>ts > end_time + resolution\<close> with
  \<open>n = (ts - end_time) / resolution - 1\<close> missing slots fills each missing slot with the
  tail slot's map if \<open>n < 3\<close>, so two missing slots are filled forward. The code does
  not do that: after one sample at 2000 (resolution 1), an append at 2003 has \<open>n = 2\<close>
  missing slots, and both are stored as null.
\<close>

theorem C1_two_missing_slots_are_null:
  "rbind (append_chunk (newChunk 1 2000) [(''val'', 1::real)] 2000) (\<lambda>c0.
     rbind (append_chunk c0 [(''val'', 5)] 2003) (\<lambda>c1.
       Inr (latestRaw c0, (2003 - cEndTime c0) sdiv cResolution c0 - 1, cData c1)))
   = Inr (Some [(0, 1)], 2, [Some [(0, 1)], None, None, Some [(0, 5)]])"
  by code_simp

text \<open>
  C1, amended: \<open>fillTo\<close> compares \<open>(ts - end_time) / resolution\<close>, which is \<open>n + 1\<close>, with
  3. For a chunk whose tag map is allocated (a chunk made by \<open>newChunk\<close>, not one decoded
  from a file), whose end time is positive, a positive resolution and a timestamp
  \<open>ts > end_time + resolution\<close> on the chunk's grid, \<open>derefTags\<close> returns the new slot, the
  append succeeds, sets the end time to \<open>ts\<close> and extends the data by \<open>n\<close> fill slots
  followed by the new slot; the fill slots hold the tail slot's map if \<open>n < 2\<close> (exactly
  one slot is missing) and null otherwise.
\<close>

theorem C1_fill_forward_only_for_one_missing_slot:
  assumes tm: "ctagMap c \<noteq> None"
    and ne: "0 < cEndTime c" and r: "0 < cResolution c"
    and gap: "timestamp > cEndTime c + cResolution c"
    and al: "(timestamp - cEndTime c) smod cResolution c = 0"
  defines "n \<equiv> (timestamp - cEndTime c) sdiv cResolution c - 1"
  shows "\<exists>new c3. derefTags c val = Inr (new, c3) \<and>
           rbind (append_chunk c val timestamp) (\<lambda>c'. Inr (cData c', cEndTime c')) =
             Inr (cData c @ replicate (nat n) (if n < 2 then latestRaw c else None)
                    @ [Some new], timestamp)"
proof -
  let ?r = "cResolution c" and ?E = "cEndTime c"
  have d0: "0 \<le> timestamp - ?E" using gap r by simp
  have q: "(timestamp - ?E) sdiv ?r = (timestamp - ?E) div ?r"
    using d0 r by (rule sdiv_nonneg)
  have m: "(timestamp - ?E) mod ?r = 0"
    using al smod_nonneg [OF d0 r] by simp
  have "?r * ((timestamp - ?E) div ?r) + (timestamp - ?E) mod ?r = timestamp - ?E"
    by (rule mult_div_mod_eq)
  then have eq: "timestamp - ?E = ?r * (n + 1)"
    using m q by (simp add: n_def)
  have n1: "1 \<le> n"
  proof (rule ccontr)
    assume "\<not> 1 \<le> n"
    then have "n + 1 \<le> 1" by simp
    then have "?r * (n + 1) \<le> ?r * 1" using r by (intro mult_left_mono) simp_all
    then show False using eq gap by simp
  qed
  define k where "k = nat n"
  have kn: "int k = n" "k \<noteq> 0" using n1 by (simp_all add: k_def)
  have ts: "timestamp = (?E + ?r) + int k * ?r"
    using eq kn by (simp add: algebra_simps)
  let ?fv = "if n < 2 then latestRaw c else None"
  let ?c1 = "c\<lparr> cData := cData c @ replicate k ?fv,
                cEndTime := (?E + ?r) + (int k - 1) * ?r, cdirty := True \<rparr>"
  have num: "idiv (timestamp - ?E) ?r = Inr (n + 1)"
    using r q by (simp add: idiv_def n_def)
  have loop: "fillTo_loop timestamp ?fv (?E + ?r) c = Inr ?c1"
    using fillTo_loop_aligned [OF r, of "?E + ?r" k ?fv] kn ts by simp
  have fill: "fillTo c timestamp = Inr ?c1"
    using loop by (simp add: fillTo_def num rbind_def Let_def)
  have e1: "cEndTime ?c1 = timestamp - ?r"
    using ts by (simp add: algebra_simps)
  have ne1: "\<not> empty_chunk ?c1"
    using gap ne e1 by (simp add: empty_chunk_def)
  have nec: "\<not> empty_chunk c" using ne by (simp add: empty_chunk_def)
  have "\<exists>new c3. derefTags c val = Inr (new, c3)"
    unfolding derefTags_def using tm by (rule derefTags_loop_alloc)
  then obtain new c3 where d: "derefTags c val = Inr (new, c3)" by blast
  have cd: "cData c3 = cData c"
    using derefTags_loop_fields [of val c "[]" new c3] d by (simp add: derefTags_def)
  have dt: "derefTags ?c1 val =
      Inr (new, c3\<lparr> cData := cData c @ replicate k ?fv,
                cEndTime := (?E + ?r) + (int k - 1) * ?r, cdirty := True \<rparr>)"
    using d unfolding derefTags_def derefTags_loop_frame by (simp add: rbind_def)
  have c1: "(if \<not> empty_chunk c \<and> timestamp > ?E + ?r then fillTo c timestamp else Inr c) = Inr ?c1"
    using nec gap fill by simp
  have c2: "(if empty_chunk ?c1 \<and> timestamp \<noteq> cStartTime ?c1
             then lead_loop timestamp (cStartTime ?c1) ?c1 else Inr ?c1) = Inr ?c1"
    using ne1 by (simp only: if_False simp_thms)
  have nlt: "\<not> timestamp < ?E" "timestamp \<noteq> ?E" using gap r by simp_all
  have "append_chunk c val timestamp =
      Inr (c3\<lparr> cData := cData c @ replicate k ?fv @ [Some new],
             cEndTime := timestamp, cdirty := True \<rparr>)"
    unfolding append_chunk_def
    by (simp only: nlt if_False c1 c2 rbind_Inr dt split_conv) simp
  then have "rbind (append_chunk c val timestamp) (\<lambda>c'. Inr (cData c', cEndTime c')) =
      Inr (cData c @ replicate k ?fv @ [Some new], timestamp)"
    by (simp add: rbind_def)
  then show ?thesis using d by (simp add: k_def)
qed

theorem C1_fill_forward_witness:
  "derefTags \<lparr> cStartTime = 2000, cEndTime = 2000, cResolution = 1, cData = [Some [(0, 1::real)]],
                cTags = [''val''], ctagMap = Some [''val'' \<mapsto> 0], cdirty = True \<rparr>
             [(''val'', 5)]
     = Inr ([(0, 5)],
            \<lparr> cStartTime = 2000, cEndTime = 2000, cResolution = 1, cData = [Some [(0, 1::real)]],
              cTags = [''val''], ctagMap = Some [''val'' \<mapsto> 0], cdirty = True \<rparr>)
   \<and> rbind (append_chunk
            \<lparr> cStartTime = 2000, cEndTime = 2000, cResolution = 1, cData = [Some [(0, 1::real)]],
              cTags = [''val''], ctagMap = Some [''val'' \<mapsto> 0], cdirty = True \<rparr>
            [(''val'', 5)] 2002)
         (\<lambda>c'. Inr (cData c', cEndTime c'))
   = Inr ([Some [(0, 1)], Some [(0, 1)], Some [(0, 5)]], 2002)"
  using C1_fill_forward_only_for_one_missing_slot
    [of "\<lparr> cStartTime = 2000, cEndTime = 2000, cResolution = 1, cData = [Some [(0, 1::real)]],
           cTags = [''val''], ctagMap = Some [''val'' \<mapsto> 0], cdirty = True \<rparr>"
        2002 "[(''val'', 5)]"]
  by (simp add: signed_divide_int_def signed_modulo_int_def latestRaw_def derefTags_def)


section \<open>The rollup law\<close>





section \<open>Archive end time under late appends\<close>

text \<open>
  C3. The claim: within one archive \<open>EndTime\<close> never decreases; an \<open>Append\<close> whose
  normalised timestamp is smaller than \<open>EndTime\<close> is dropped and leaves \<open>EndTime\<close> as it
  was. The chunk does drop the late sample and keeps its own end time, but
  \<open>Archive.Append\<close> then assigns \<open>a.EndTime = timestamp\<close> without a guard. On an archive
  of resolution 1 with chunks of 2000 slots, appending at 2005 and then at 2003 leaves
  the tail chunk (and \<open>Latest\<close>) at 2005 with the first value, while the archive's
  \<open>EndTime\<close> has gone back from 2005 to 2003.
\<close>

theorem C3_late_append_lowers_EndTime:
  "rbind (Append (NewArchive 1 3600 2000) [(''val'', 1::real)] 2005) (\<lambda>a1.
     rbind (Append a1 [(''val'', 2)] 2003) (\<lambda>a2.
       Inr (EndTime a1, EndTime a2, Latest a2)))
   = Inr (2005, 2003, Inr (Some [(''val'', 1)], 2005))"
  by code_simp


section \<open>Empty rollups in aggregate queries\<close>

text \<open>
  C4. The claim: for a rollup slot with \<open>count = 0\<close> the aggregate queries report the
  configured default value. The handlers of \<open>Averages\<close>, \<open>Maximums\<close> and \<open>Minimums\<close>
  return the constant 0 for such a slot, whatever \<open>DefaultValue\<close> is; only the branch
  of \<open>walkData\<close> for the base resolution uses \<open>DefaultValue\<close>. The series below has
  \<open>DefaultValue = 7\<close>, resolutions 1000 and 2000, and samples at 4000000, 4002000 and
  4010000. The coarse slot at 4004000 is empty: \<open>Rollups\<close> reports it with \<open>count = 0\<close>,
  and the three aggregates report 0 for it, not 7.
\<close>

theorem C4_empty_rollup_reported_as_zero:
  "(case NewTimeSeries \<lparr> Archives = [\<lparr> cfgResolution = 1000, cfgRetention = 3600000 \<rparr>,
                                       \<lparr> cfgResolution = 2000, cfgRetention = 86400000 \<rparr>],
                           DefaultValue = 7 \<rparr> of
      Inr (Inr t0) \<Rightarrow>
        rbind (AddValues t0 [(''val'', 10)] 4000000) (\<lambda>t1.
        rbind (AddValues t1 [(''val'', 20)] 4002000) (\<lambda>t2.
        rbind (AddValues t2 [(''val'', 30)] 4010000) (\<lambda>t3.
        rbind (Rollups t3 4002000 4006000 2000) (\<lambda>rs.
        rbind (Averages t3 4002000 4006000 2000) (\<lambda>av.
        rbind (Maximums t3 4002000 4006000 2000) (\<lambda>mx.
        rbind (Minimums t3 4002000 4006000 2000) (\<lambda>mn.
          Inr (DefaultValue (config t3), rs, av, mx, mn))))))))
    | _ \<Rightarrow> Inl NoReturn)
   = Inr (7,
          Inr ([(''val'', [\<lparr> rTotal = 20, rCount = 2, rMin = 10, rMax = 10 \<rparr>,
                           \<lparr> rTotal = 0, rCount = 0, rMin = 0, rMax = 0 \<rparr>])],
               [4002000, 4004000]),
          Inr ([(''val'', [10, 0])], [4002000, 4004000]),
          Inr ([(''val'', [10, 0])], [4002000, 4004000]),
          Inr ([(''val'', [10, 0])], [4002000, 4004000]))"
  by code_simp


section \<open>Signals without a value in the closed window\<close>





section \<open>Latest after an append\<close>





section \<open>Timestamp vector of a query\<close>





section \<open>Retention after a write\<close>

text \<open>
  C8, as stated: for every archive, at every moment after a \<open>Write\<close> call completes,
  \<open>end_time - start_time \<le> retention + chunk_span\<close>. Retention is exercised by \<open>Write\<close>
  only, so the bound does not last beyond the next \<open>Append\<close>: on the archive of
  resolution 10, retention 30 and chunk span 20, after an append at 30, a \<open>Write\<close> (which
  sets \<open>lastWrite\<close> to 30) and an append at 110, the end time is 110 and the start time
  still 30, and \<open>110 - 30 > 30 + 20\<close>.
\<close>

theorem C8_append_after_write_exceeds_bound:
  "rbind (run_calls [CallAppend [(''val'', 1::real)] 30, CallWrite (\<lambda>name. True),
                     CallAppend [(''val'', 2)] 110] (NewArchive 10 30 20))
         (\<lambda>a. Inr (lastWrite a, EndTime a, StartTime a, Retention a + ChunkSize a))
   = Inr (30, 110, 30, 50)"
  by code_simp

text \<open>
  C8, amended: the bound is a postcondition of \<open>Write\<close>. Take a new archive with a
  positive resolution, a chunk span that is a positive multiple of it and a retention
  that is not negative, and any sequence of \<open>Append\<close> calls with positive timestamps and
  \<open>Write\<close> calls. The sequence runs without a panic, a further \<open>Write\<close> returns, and if
  it returns without an error the archive it leaves has
  \<open>end_time - start_time \<le> retention + chunk_span\<close>.
\<close>

theorem C8_retention_bound_after_write:
  assumes "0 < interval" and "0 < slots" and "0 \<le> retention"
    and "list_all positive_call calls"
  shows "\<exists>a ok a'. run_calls calls (NewArchive interval retention (slots * interval)) = Inr a
           \<and> Write wok a = Inr (ok, a')
           \<and> (ok \<longrightarrow> EndTime a' - StartTime a' \<le> Retention a' + ChunkSize a')"
proof -
  let ?a0 = "NewArchive interval retention (slots * interval)"
  have w0: "wf_archive ?a0" using assms(1,2) by (rule wf_archive_new)
  have r0: "0 \<le> Retention ?a0" using assms(3) by (simp add: NewArchive_def)
  have i0: "lastWrite ?a0 - StartTime ?a0 \<le> Retention ?a0" using assms(3) by (simp add: NewArchive_def)
  obtain a where run: "run_calls calls ?a0 = Inr a" and wa: "wf_archive a"
    and ra: "0 \<le> Retention a" and ia: "lastWrite a - StartTime a \<le> Retention a"
    using run_calls_retained [OF w0 r0 i0 assms(4)] by blast
  obtain ok a' where w: "Write wok a = Inr (ok, a')" and w1: "wf_archive a'"
    and f: "Retention a' = Retention a" "EndTime a' = EndTime a"
    and s: "ok \<longrightarrow> lastWrite a' = EndTime a
            \<and> (if lastWrite a < EndTime a then EndTime a' - StartTime a' \<le> Retention a'
                else StartTime a' = StartTime a)"
    using Write_props [OF wa, of wok] by blast
  have C: "0 < ChunkSize a'" using w1 by (simp add: wf_archive_def)
  have "ok \<longrightarrow> EndTime a' - StartTime a' \<le> Retention a'"
  proof
    assume ok
    show "EndTime a' - StartTime a' \<le> Retention a'"
    proof (cases "lastWrite a < EndTime a")
      case True
      then show ?thesis using s \<open>ok\<close> by simp
    next
      case False
      then have "StartTime a' = StartTime a" using s \<open>ok\<close> by simp
      then show ?thesis using False ia f by linarith
    qed
  qed
  then have "ok \<longrightarrow> EndTime a' - StartTime a' \<le> Retention a' + ChunkSize a'"
    using C by linarith
  then show ?thesis using run w by blast
qed

theorem C8_witness:
  "\<exists>a a'. run_calls [CallAppend [(''val'', 1::real)] 30, CallWrite (\<lambda>name. True),
                         CallAppend [(''val'', 2)] 110] (NewArchive 10 30 (2 * 10)) = Inr a
     \<and> Write (\<lambda>name. True) a = Inr (True, a')
     \<and> EndTime a' = 110 \<and> StartTime a' = 80 \<and> Retention a' = 30 \<and> ChunkSize a' = 20
     \<and> EndTime a' - StartTime a' \<le> Retention a' + ChunkSize a'"
proof -
  let ?calls = "[CallAppend [(''val'', 1::real)] 30, CallWrite (\<lambda>name. True),
                 CallAppend [(''val'', 2)] 110]"
  have "case run_calls ?calls (NewArchive 10 30 (2 * 10)) of
          Inr a \<Rightarrow>
            (case Write (\<lambda>name. True) a of
               Inr (ok, a') \<Rightarrow> ok \<and> EndTime a' = 110 \<and> StartTime a' = 80 \<and> Retention a' = 30
                                \<and> ChunkSize a' = 20
             | Inl f \<Rightarrow> False)
        | Inl f \<Rightarrow> False"
    by code_simp
  then obtain a a' where run: "run_calls ?calls (NewArchive 10 30 (2 * 10)) = Inr a"
    and w: "Write (\<lambda>name. True) a = Inr (True, a')"
    and v: "EndTime a' = 110" "StartTime a' = 80" "Retention a' = 30" "ChunkSize a' = 20"
    by (auto split: sum.splits prod.splits)
  have "\<exists>b ok b'. run_calls ?calls (NewArchive 10 30 (2 * 10)) = Inr b
           \<and> Write (\<lambda>name. True) b = Inr (ok, b')
           \<and> (ok \<longrightarrow> EndTime b' - StartTime b' \<le> Retention b' + ChunkSize b')"
    by (rule C8_retention_bound_after_write) simp_all
  then have b: "EndTime a' - StartTime a' \<le> Retention a' + ChunkSize a'"
    using run w by auto
  show ?thesis
    by (rule exI [of _ a], rule exI [of _ a']) (intro conjI run w v b)
qed


section \<open>Writing twice\<close>

text \<open>
  C9: \<open>Write\<close> twice in succession is \<open>Write\<close> once. If \<open>Write\<close> of the series returns
  without an error, then a second \<open>Write\<close>, whatever the file system answers then,
  returns without an error and changes no archive: the chunks, chunk files, start and
  end times and headers all stay as the first call left them (no chunk file is
  written, the header is written again with the same contents); only \<open>LastWritten\<close>
  takes the time of the second call.
\<close>

theorem C9_second_write_changes_nothing:
  assumes "Write_series wok now t = Inr (True, t1)"
  shows "Write_series wok' now' t1 = Inr (True, t1\<lparr> LastWritten := now' \<rparr>)"
proof -
  from assms obtain b cs where
    w: "Write (wok (Interval (base t))) (base t) = Inr (True, b)"
    and r: "write_all wok (coarser t) = Inr (True, cs)"
    and e: "t1 = t\<lparr> base := b, coarser := cs, LastWritten := now \<rparr>"
    by (auto simp: Write_series_def rbind_def split: sum.splits prod.splits if_splits)
  have w2: "Write (wok' (Interval b)) b = Inr (True, b)" using w by (rule Write_twice)
  have r2: "write_all wok' cs = Inr (True, cs)" using r by (rule write_all_twice)
  show ?thesis unfolding e by (simp add: Write_series_def w2 r2 rbind_def)
qed

theorem C9_witness:
  "\<exists>t0 t1 t2.
     NewTimeSeries \<lparr> Archives = [\<lparr> cfgResolution = 1000, cfgRetention = 3600000 \<rparr>,
                                  \<lparr> cfgResolution = 2000, cfgRetention = 86400000 \<rparr>],
                      DefaultValue = 0 \<rparr> = Inr (Inr t0)
     \<and> AddValues t0 [(''val'', 10)] 4000000 = Inr t1
     \<and> Write_series (\<lambda>iv name. True) 100 t1 = Inr (True, t2)
     \<and> map fst (files (base t2)) = [4000000]
     \<and> Write_series (\<lambda>iv name. False) 200 t2 = Inr (True, t2\<lparr> LastWritten := 200 \<rparr>)"
proof -
  have "case NewTimeSeries \<lparr> Archives = [\<lparr> cfgResolution = 1000, cfgRetention = 3600000 \<rparr>,
                                  \<lparr> cfgResolution = 2000, cfgRetention = 86400000 \<rparr>],
                      DefaultValue = 0 \<rparr> of
          Inr (Inr t0) \<Rightarrow>
            (case AddValues t0 [(''val'', 10)] 4000000 of
               Inr t1 \<Rightarrow>
                 (case Write_series (\<lambda>iv name. True) 100 t1 of
                    Inr (ok, t2) \<Rightarrow> ok \<and> map fst (files (base t2)) = [4000000]
                  | Inl f \<Rightarrow> False)
             | Inl f \<Rightarrow> False)
        | _ \<Rightarrow> False"
    by code_simp
  then obtain t0 t1 t2 where
    n: "NewTimeSeries \<lparr> Archives = [\<lparr> cfgResolution = 1000, cfgRetention = 3600000 \<rparr>,
                                  \<lparr> cfgResolution = 2000, cfgRetention = 86400000 \<rparr>],
                      DefaultValue = 0 \<rparr> = Inr (Inr t0)"
    and a: "AddValues t0 [(''val'', 10)] 4000000 = Inr t1"
    and w: "Write_series (\<lambda>iv name. True) 100 t1 = Inr (True, t2)"
    and f: "map fst (files (base t2)) = [4000000]"
    by (auto split: sum.splits prod.splits)
  have s: "Write_series (\<lambda>iv name. False) 200 t2 = Inr (True, t2\<lparr> LastWritten := 200 \<rparr>)"
    using w by (rule C9_second_write_changes_nothing)
  show ?thesis
    by (rule exI [of _ t0], rule exI [of _ t1], rule exI [of _ t2]) (intro conjI n a w f s)
qed


section \<open>A configured resolution of zero\<close>

text \<open>
  C10, as stated: with a smallest resolution of 0, \<open>NewTimeSeries\<close> succeeds and any
  later \<open>AddValues\<close> or query divides by zero in \<open>tsNorm\<close>. That fails for queries: on
  the series made from the single archive of resolution 0, \<open>Averages\<close> at resolution
  60 returns the error "no matching archive", \<open>Rollups\<close> at resolution 0 returns the
  error "cannot get rollups from base archive", and \<open>Latest\<close> returns the empty map;
  none of them panics.
\<close>

theorem C10_queries_without_panic:
  "(case NewTimeSeries \<lparr> Archives = [\<lparr> cfgResolution = 0, cfgRetention = 3600 \<rparr>], DefaultValue = 0 \<rparr> of
      Inr (Inr t) \<Rightarrow> Inr (Averages t 0 120 60, Rollups t 0 120 0, Latest_series t)
    | _ \<Rightarrow> Inl NoReturn)
   = Inr (Inr (Inl NoMatchingArchive), Inr (Inl BaseRollups), Inr ([], 0))"
  by code_simp

lemma NewTimeSeries_zero:
  "NewTimeSeries \<lparr> Archives = [\<lparr> cfgResolution = 0, cfgRetention = rt \<rparr>], DefaultValue = dv \<rparr> =
     Inr (Inr \<lparr> base = \<lparr> Interval = 0, ChunkSize = 0, Retention = rt, StartTime = 0, EndTime = 0,
                         chunks = [], lastWrite = 0, files = [],
                         header = Some (0, 0, rt, 0, 0) \<rparr>,
               coarser = [],
               config = \<lparr> Archives = [\<lparr> cfgResolution = 0, cfgRetention = rt \<rparr>], DefaultValue = dv \<rparr>,
               LastWritten = 0 \<rparr>)"
  by (simp add: NewTimeSeries_def new_archive_def imod_def rbind_def Write_def NewArchive_def
      write_header_def chunkSizeSlots_def signed_modulo_int_def)

text \<open>
  C10, amended: for the configuration whose only archive has resolution 0,
  \<open>NewTimeSeries\<close> succeeds; on the series it returns, \<open>tsNorm\<close> of the base archive
  divides by zero for every timestamp and so does every \<open>AddValues\<close>; every aggregate
  query at resolution 0 divides by zero (in the length computation of \<open>walkData\<close>,
  before \<open>tsNorm\<close> is reached); an aggregate query at any other resolution returns the
  error "no matching archive", \<open>Rollups\<close> at resolution 0 returns its error and \<open>Latest\<close>
  returns the empty map. Positive resolutions are needed for totality: whenever
  \<open>NewTimeSeries\<close> accepts a configuration in which some resolution is not positive,
  the base resolution \<open>b\<close> of the series is not positive, and the aggregate query over
  \<open>[0, -b)\<close> at resolution \<open>b\<close> panics: it divides by zero if \<open>b = 0\<close>, and for \<open>b < 0\<close>
  \<open>GetData\<close> makes a slice of length \<open>-1\<close>.
\<close>

theorem C10_zero_resolution_accepted:
  "(\<exists>t. NewTimeSeries \<lparr> Archives = [\<lparr> cfgResolution = 0, cfgRetention = 3600 \<rparr>], DefaultValue = 0 \<rparr>
         = Inr (Inr t)
      \<and> (\<forall>vals ts. tsNorm (base t) ts = Inl DivideByZero \<and> AddValues t vals ts = Inl DivideByZero)
      \<and> (\<forall>s e h. walkData t s e 0 h = Inl DivideByZero)
      \<and> (\<forall>s e r h. r \<noteq> 0 \<longrightarrow> walkData t s e r h = Inr (Inl NoMatchingArchive))
      \<and> (\<forall>s e. Rollups t s e 0 = Inr (Inl BaseRollups))
      \<and> Latest_series t = Inr ([], 0))
   \<and> (\<forall>cfg t h. NewTimeSeries cfg = Inr (Inr t) \<and> \<not> list_all (\<lambda>a. 0 < cfgResolution a) (Archives cfg)
        \<longrightarrow> Interval (base t) \<le> 0
          \<and> walkData t 0 (- Interval (base t)) (Interval (base t)) h
              = Inl (if Interval (base t) = 0 then DivideByZero else NegativeLength))"
proof (rule conjI)
  show "\<exists>t. NewTimeSeries \<lparr> Archives = [\<lparr> cfgResolution = 0, cfgRetention = 3600 \<rparr>], DefaultValue = 0 \<rparr>
         = Inr (Inr t)
      \<and> (\<forall>vals ts. tsNorm (base t) ts = Inl DivideByZero \<and> AddValues t vals ts = Inl DivideByZero)
      \<and> (\<forall>s e h. walkData t s e 0 h = Inl DivideByZero)
      \<and> (\<forall>s e r h. r \<noteq> 0 \<longrightarrow> walkData t s e r h = Inr (Inl NoMatchingArchive))
      \<and> (\<forall>s e. Rollups t s e 0 = Inr (Inl BaseRollups))
      \<and> Latest_series t = Inr ([], 0)"
    unfolding NewTimeSeries_zero
    apply (rule exI, rule conjI, rule refl)
    apply (intro conjI allI impI)
         apply (simp add: tsNorm_def imod_def rbind_def)
        apply (simp add: AddValues_def Append_def tsNorm_def imod_def rbind_def)
       apply (simp add: walkData_def idiv_def rbind_def)
      apply (simp add: walkData_def Rollups_def idiv_def imod_def rbind_def Let_def)
     apply (simp add: Rollups_def)
    apply (simp add: Latest_series_def Latest_def lastChunk_def rbind_def)
    done
next
  show "\<forall>cfg t h. NewTimeSeries cfg = Inr (Inr t) \<and> \<not> list_all (\<lambda>a. 0 < cfgResolution a) (Archives cfg)
        \<longrightarrow> Interval (base t) \<le> 0
          \<and> walkData t 0 (- Interval (base t)) (Interval (base t)) h
              = Inl (if Interval (base t) = 0 then DivideByZero else NegativeLength)"
  proof (intro allI impI, elim conjE)
    fix cfg t h
    assume n: "NewTimeSeries cfg = Inr (Inr t)"
      and np: "\<not> list_all (\<lambda>a. 0 < cfgResolution a) (Archives cfg)"
    obtain a where a: "a \<in> set (Archives cfg)" "cfgResolution a \<le> 0"
      using np by (auto simp: list_all_iff not_less)
    have "Interval (base t) \<le> cfgResolution a" using NewTimeSeries_base(2) [OF n] a(1) by blast
    then have r: "Interval (base t) \<le> 0" using a(2) by linarith
    obtain rt where b: "base t = (NewArchive (Interval (base t)) rt (chunkSizeSlots * Interval (base t)))
              \<lparr> header := Some (Interval (base t), chunkSizeSlots * Interval (base t), rt, 0, 0) \<rparr>"
      using NewTimeSeries_base(1) [OF n] by blast
    show "Interval (base t) \<le> 0
          \<and> walkData t 0 (- Interval (base t)) (Interval (base t)) h
              = Inl (if Interval (base t) = 0 then DivideByZero else NegativeLength)"
      using r walkData_nonpositive [OF b r] by simp
  qed
qed

theorem C10_zero_resolution_witness:
  "(\<exists>t. NewTimeSeries \<lparr> Archives = [\<lparr> cfgResolution = 0, cfgRetention = 3600 \<rparr>], DefaultValue = 0 \<rparr>
         = Inr (Inr t)
      \<and> AddValues t [(''val'', 1)] 100 = Inl DivideByZero
      \<and> Averages t 0 120 0 = Inl DivideByZero
      \<and> Averages t 0 120 60 = Inr (Inl NoMatchingArchive))
   \<and> (\<exists>t. NewTimeSeries \<lparr> Archives = [\<lparr> cfgResolution = 0, cfgRetention = 3600 \<rparr>,
                                           \<lparr> cfgResolution = - 5, cfgRetention = 3600 \<rparr>],
                               DefaultValue = 0 \<rparr> = Inr (Inr t)
      \<and> Interval (base t) = - 5
      \<and> Averages t 0 5 (- 5) = Inl NegativeLength)"
proof -
  let ?cfg = "\<lparr> Archives = [\<lparr> cfgResolution = 0, cfgRetention = 3600 \<rparr>,
                            \<lparr> cfgResolution = - 5, cfgRetention = 3600 \<rparr>], DefaultValue = 0 \<rparr>"
  have "case NewTimeSeries ?cfg of Inr (Inr t) \<Rightarrow> Interval (base t) = - 5 | _ \<Rightarrow> False"
    by code_simp
  then obtain t where n: "NewTimeSeries ?cfg = Inr (Inr t)" and i: "Interval (base t) = - 5"
    by (auto split: sum.splits)
  have np: "\<not> list_all (\<lambda>a. 0 < cfgResolution a) (Archives ?cfg)" by simp
  have "walkData t 0 (- Interval (base t)) (Interval (base t)) avg_handler
      = Inl (if Interval (base t) = 0 then DivideByZero else NegativeLength)"
    using C10_zero_resolution_accepted n np by blast
  then have q: "Averages t 0 5 (- 5) = Inl NegativeLength"
    unfolding i by (simp add: Averages_def)
  have z: "\<exists>t. NewTimeSeries \<lparr> Archives = [\<lparr> cfgResolution = 0, cfgRetention = 3600 \<rparr>], DefaultValue = 0 \<rparr>
         = Inr (Inr t)
      \<and> AddValues t [(''val'', 1)] 100 = Inl DivideByZero
      \<and> Averages t 0 120 0 = Inl DivideByZero
      \<and> Averages t 0 120 60 = Inr (Inl NoMatchingArchive)"
    using C10_zero_resolution_accepted by (auto simp: Averages_def)
  show ?thesis using z n i q by blast
qed

end
